theory Spec2Isabelle
  imports Main "HOL-Library.Sublist"
begin

section \<open>Strings, paths and titles\<close>

text \<open>
  A Python \<open>str\<close> is modelled as a \<open>string\<close>, one \<open>char\<close> per code point, so
  \<open>length\<close> is Python's \<open>len\<close>. A path is a string as well.
\<close>

type_synonym path = string

abbreviation NL :: char where
  "NL \<equiv> CHR 0x0A"

abbreviation BSL :: char where
  "BSL \<equiv> CHR 0x5C"

text \<open>\<open>str.endswith\<close>.\<close>

definition endswith :: "string \<Rightarrow> string \<Rightarrow> bool" where
  "endswith s t = (length t \<le> length s \<and> drop (length s - length t) s = t)"

text \<open>
  \<open>find_markdown_files\<close>: \<open>os.walk\<close> lists the files of the vault (the list
  \<open>walk\<close>, every path once); the files whose name ends in \<open>.md\<close> are kept, in
  that order.
\<close>

definition find_markdown_files :: "path list \<Rightarrow> path list" where
  "find_markdown_files walk = filter (\<lambda>file. endswith file ''.md'') walk"

text \<open>\<open>os.path.basename\<close>: what follows the last slash.\<close>

definition basename :: "path \<Rightarrow> string" where
  "basename p = rev (takeWhile (\<lambda>c. c \<noteq> CHR ''/'') (rev p))"

text \<open>
  The first component of \<open>os.path.splitext\<close> on a name without a slash: the name
  is cut at its last dot when some character before that dot is not a dot, and
  is left whole otherwise.
\<close>

definition splitext_root :: "string \<Rightarrow> string" where
  "splitext_root b =
     (let root = rev (tl (dropWhile (\<lambda>c. c \<noteq> CHR ''.'') (rev b)))
      in if CHR ''.'' \<in> set b \<and> (\<exists>c \<in> set root. c \<noteq> CHR ''.'') then root else b)"

definition extract_note_title :: "path \<Rightarrow> string" where
  "extract_note_title file_path = splitext_root (basename file_path)"

section \<open>Explicit links\<close>

text \<open>
  \<open>parse_links\<close> is \<open>re.findall\<close> of \<open>\[\[(.*?)(?:\|.*?)?\]\]\<close>: the list of
  the first group of every match, left to right, matches not overlapping. The
  dot does not match a line break.

  \<open>close_rest s\<close> matches \<open>.*?\]\]\<close> at the start of \<open>s\<close> and returns what
  follows the match.
\<close>

fun close_rest :: "string \<Rightarrow> string option" where
  "close_rest [] = None"
| "close_rest (c # cs) =
     (if take 2 (c # cs) = '']]'' then Some (drop 2 (c # cs))
      else if c = NL then None
      else close_rest cs)"

text \<open>
  \<open>link_target s\<close> matches \<open>(.*?)(?:\|.*?)?\]\]\<close> at the start of \<open>s\<close>, the text
  after an opening \<open>[[\<close>: the group is the shortest run of characters after
  which either a bar followed by \<open>.*?\]\]\<close> matches, or \<open>\]\]\<close> does. It
  returns the group and what follows the match.
\<close>

fun link_target :: "string \<Rightarrow> (string \<times> string) option" where
  "link_target [] = None"
| "link_target (c # cs) =
     (if c = CHR ''|'' \<and> close_rest cs \<noteq> None then Some ([], the (close_rest cs))
      else if take 2 (c # cs) = '']]'' then Some ([], drop 2 (c # cs))
      else if c = NL then None
      else (case link_target cs of
              None \<Rightarrow> None
            | Some (g, r) \<Rightarrow> Some (c # g, r)))"

lemma close_rest_length: "close_rest s = Some r \<Longrightarrow> length r < length s"
  by (induction s) (auto split: if_splits)

lemma link_target_length: "link_target s = Some (g, r) \<Longrightarrow> length r < length s"
proof (induction s arbitrary: g)
  case Nil
  then show ?case by simp
next
  case (Cons c cs)
  show ?case
  proof (cases "c = CHR ''|'' \<and> close_rest cs \<noteq> None")
    case True
    then obtain r' where r': "close_rest cs = Some r'" by auto
    with True Cons.prems have "r = r'" by simp
    with close_rest_length[OF r'] show ?thesis by simp
  next
    case False
    note nobar = this
    show ?thesis
    proof (cases "take 2 (c # cs) = '']]''")
      case True
      with nobar Cons.prems have "r = drop 2 (c # cs)" by auto
      then show ?thesis by simp
    next
      case False
      with nobar Cons.prems obtain g' where "link_target cs = Some (g', r)"
        by (auto split: if_splits option.splits)
      from Cons.IH[OF this] show ?thesis by simp
    qed
  qed
qed

function parse_links :: "string \<Rightarrow> string list" where
  "parse_links [] = []"
| "parse_links (c # cs) =
     (if take 2 (c # cs) = ''[[''
      then (case link_target (drop 2 (c # cs)) of
              Some (g, r) \<Rightarrow> g # parse_links r
            | None \<Rightarrow> parse_links cs)
      else parse_links cs)"
  by pat_completeness auto
termination
proof (relation "measure length")
  show "wf (measure length)" by simp
next
  fix c :: char and cs x2 x y
  assume "take 2 (c # cs) = ''[[''" and "link_target (drop 2 (c # cs)) = Some x2"
    and "(x, y) = x2"
  then have "link_target (drop 2 (c # cs)) = Some (x, y)" by simp
  from link_target_length[OF this] have "length y < length (drop 2 (c # cs))" .
  then show "(y, c # cs) \<in> measure length" by simp
qed simp_all

section \<open>Literal-text references\<close>

text \<open>
  The pattern of \<open>find_text_references\<close> is \<open>(?<!\[\[)\<close>, the escaped title,
  \<open>(?!\]\])\<close>. It matches at index \<open>i\<close> when the title stands there, the two
  characters before \<open>i\<close> are not \<open>[[\<close> and the two characters after the title
  are not \<open>]]\<close>. \<open>re.search\<close> succeeds when it matches at some index.
\<close>

definition text_match_at :: "string \<Rightarrow> string \<Rightarrow> nat \<Rightarrow> bool" where
  "text_match_at title content i =
     (take (length title) (drop i content) = title \<and>
      \<not> (2 \<le> i \<and> take 2 (drop (i - 2) content) = ''[['') \<and>
      take 2 (drop (i + length title) content) \<noteq> '']]'')"

definition re_search_title :: "string \<Rightarrow> string \<Rightarrow> bool" where
  "re_search_title title content =
     (\<exists>i \<in> set [0 ..< Suc (length content)]. text_match_at title content i)"

fun find_text_references :: "string \<Rightarrow> string list \<Rightarrow> string list" where
  "find_text_references content [] = []"
| "find_text_references content (title # note_titles) =
     (if length title < 3 then find_text_references content note_titles
      else if re_search_title title content
           then title # find_text_references content note_titles
      else find_text_references content note_titles)"

section \<open>The backlink index\<close>

text \<open>
  A reference is the pair of the source's title and the source's path. The
  index \<open>backlinks\<close> is a \<open>defaultdict(list)\<close>: an association list in the
  order in which the keys were first used, each key once.
  \<open>dict_append bl k x\<close> is \<open>bl[k].append(x)\<close>.
\<close>

type_synonym reference = "string \<times> path"

type_synonym backlinks = "(path \<times> reference list) list"

fun dict_append :: "backlinks \<Rightarrow> path \<Rightarrow> reference \<Rightarrow> backlinks" where
  "dict_append [] k x = [(k, [x])]"
| "dict_append ((k', xs) # bl) k x =
     (if k' = k then (k', xs @ [x]) # bl else (k', xs) # dict_append bl k x)"

text \<open>
  The files of the vault: \<open>contents\<close> gives the text that reading a path
  returns (\<open>None\<close> when the file cannot be opened or decoded), \<open>writable\<close>
  says whether \<open>open(path, 'w')\<close> and the write succeed, \<open>written\<close> lists the
  paths written so far, oldest first.
\<close>

record vault =
  contents :: "path \<rightharpoonup> string"
  writable :: "path \<Rightarrow> bool"
  written :: "path list"

datatype error = IOError | ReError

text \<open>The dict comprehension \<open>{extract_note_title(f): f for f in markdown_files}\<close>:
  a later file of the same title replaces an earlier one.\<close>

definition file_title_map :: "path list \<Rightarrow> (string \<rightharpoonup> path)" where
  "file_title_map markdown_files =
     foldl (\<lambda>m f. m(extract_note_title f \<mapsto> f)) Map.empty markdown_files"

text \<open>The loop over \<open>all_refs\<close> of one source document.\<close>

definition add_ref :: "(string \<rightharpoonup> path) \<Rightarrow> reference \<Rightarrow> backlinks \<Rightarrow> string \<Rightarrow> backlinks" where
  "add_ref ftm src bl ref =
     (case ftm ref of
        None \<Rightarrow> bl
      | Some target_file \<Rightarrow> dict_append bl target_file src)"

definition add_refs :: "(string \<rightharpoonup> path) \<Rightarrow> reference \<Rightarrow> string list \<Rightarrow> backlinks \<Rightarrow> backlinks" where
  "add_refs ftm src all_refs bl = foldl (add_ref ftm src) bl all_refs"

text \<open>
  The loop over the files. \<open>set(links + text_refs)\<close> holds every title once, and
  Python iterates it in an order that depends on the hash seed of the run. That
  order is the parameter \<open>set_order\<close>: the list in which the set of a list is
  iterated. \<open>iteration_order\<close> says what every such order has: each element of
  the list once. The order decides the order of the keys of the index, and with
  it the order in which the files are written; the references of a file do
  not depend on it (\<open>generate_backlinks_order\<close>), nor do the texts written
  when no title has a backslash (\<open>main_order\<close>). \<open>find_text_references\<close> is
  called for every file: the function takes no flag.
\<close>

type_synonym set_iteration = "string list \<Rightarrow> string list"

definition iteration_order :: "set_iteration \<Rightarrow> bool" where
  "iteration_order set_order = (\<forall>xs. distinct (set_order xs) \<and> set (set_order xs) = set xs)"

fun scan_files ::
  "set_iteration \<Rightarrow> vault \<Rightarrow> string list \<Rightarrow> (string \<rightharpoonup> path) \<Rightarrow> path list \<Rightarrow> backlinks
     \<Rightarrow> error + backlinks" where
  "scan_files set_order v note_titles ftm [] bl = Inr bl"
| "scan_files set_order v note_titles ftm (file_path # rest) bl =
     (case contents v file_path of
        None \<Rightarrow> Inl IOError
      | Some content \<Rightarrow>
          (let source_title = extract_note_title file_path;
               links = parse_links content;
               text_refs = find_text_references content note_titles;
               all_refs = set_order (links @ text_refs)
           in scan_files set_order v note_titles ftm rest
                (add_refs ftm (source_title, file_path) all_refs bl)))"

definition generate_backlinks :: "set_iteration \<Rightarrow> vault \<Rightarrow> path list \<Rightarrow> error + backlinks" where
  "generate_backlinks set_order v markdown_files =
     scan_files set_order v (map extract_note_title markdown_files)
       (file_title_map markdown_files) markdown_files []"

section \<open>Rewriting the files\<close>

definition heading :: string where
  "heading = ''## Backlinks'' @ [NL, NL]"

text \<open>
  The section pattern is \<open>## Backlinks\n\n.*?(?:\n\n|$)\<close> with \<open>re.DOTALL\<close>.
  \<open>block_end s\<close> matches \<open>.*?(?:\n\n|$)\<close> at the start of \<open>s\<close>: it returns the
  matched text and the rest. \<open>$\<close> matches at the end of the text and before a
  line break that ends the text.
\<close>

fun block_end :: "string \<Rightarrow> string \<times> string" where
  "block_end [] = ([], [])"
| "block_end (c # cs) =
     (if take 2 (c # cs) = [NL, NL] then ([NL, NL], drop 2 (c # cs))
      else if c # cs = [NL] then ([], [NL])
      else (case block_end cs of (m, r) \<Rightarrow> (c # m, r)))"

text \<open>The pattern matched at the start of \<open>s\<close>: the matched text and the rest.\<close>

definition section_at :: "string \<Rightarrow> (string \<times> string) option" where
  "section_at s =
     (if take (length heading) s = heading
      then (case block_end (drop (length heading) s) of (m, r) \<Rightarrow> Some (heading @ m, r))
      else None)"

text \<open>\<open>re.search\<close> of the pattern: is there a match at some index.\<close>

fun existing_section :: "string \<Rightarrow> bool" where
  "existing_section [] = False"
| "existing_section (c # cs) = (section_at (c # cs) \<noteq> None \<or> existing_section cs)"

lemma block_end_length: "block_end s = (m, r) \<Longrightarrow> length r \<le> length s"
proof (induction s arbitrary: m)
  case Nil
  then show ?case by simp
next
  case (Cons c cs)
  show ?case
  proof (cases "take 2 (c # cs) = [NL, NL] \<or> c # cs = [NL]")
    case True
    with Cons.prems show ?thesis by (auto split: if_splits)
  next
    case False
    with Cons.prems obtain m' where "block_end cs = (m', r)"
      by (auto split: if_splits prod.splits)
    from Cons.IH[OF this] show ?thesis by simp
  qed
qed

lemma section_at_length: "section_at s = Some (m, r) \<Longrightarrow> length r < length s"
proof -
  assume a: "section_at s = Some (m, r)"
  then have h: "take (length heading) s = heading"
    by (auto simp: section_at_def split: if_splits)
  from a h obtain m' where "block_end (drop (length heading) s) = (m', r)"
    by (auto simp: section_at_def split: prod.splits)
  from block_end_length[OF this] have "length r \<le> length s - length heading" by simp
  moreover have "length heading \<le> length s"
  proof -
    from h have "length (take (length heading) s) = length heading" by simp
    then show ?thesis by simp
  qed
  moreover have "0 < length heading" by (simp add: heading_def)
  ultimately show ?thesis by linarith
qed

text \<open>
  \<open>re.sub\<close> of the pattern with the replacement \<open>repl\<close>, a function of the
  matched text: every match, left to right, matches not overlapping, is
  replaced (\<open>count\<close> is not given).
\<close>

function re_sub_section :: "(string \<Rightarrow> string) \<Rightarrow> string \<Rightarrow> string" where
  "re_sub_section repl [] = []"
| "re_sub_section repl (c # cs) =
     (case section_at (c # cs) of
        Some (m, r) \<Rightarrow> repl m @ re_sub_section repl r
      | None \<Rightarrow> c # re_sub_section repl cs)"
  by pat_completeness auto
termination
proof (relation "measure (\<lambda>(repl, s). length s)")
  show "wf (measure (\<lambda>(repl, s). length s))" by simp
next
  fix repl :: "string \<Rightarrow> string" and c :: char and cs x2 x y
  assume "section_at (c # cs) = Some x2" and "(x, y) = x2"
  then have "section_at (c # cs) = Some (x, y)" by simp
  from section_at_length[OF this]
  show "((repl, y), repl, c # cs) \<in> measure (\<lambda>(repl, s). length s)" by simp
qed simp_all

text \<open>
  A replacement string without a backslash is taken literally. One with a
  backslash goes through the template compiler of Python's \<open>re\<close>, which is
  not modelled: it is the parameter \<open>compile_template\<close>, \<open>None\<close> when the
  template is refused (\<open>re.error\<close>), else the replacement as a function of the
  matched text.
\<close>

type_synonym template_compiler = "string \<Rightarrow> (string \<Rightarrow> string) option"

definition re_sub :: "template_compiler \<Rightarrow> string \<Rightarrow> string \<Rightarrow> error + string" where
  "re_sub compile_template repl content =
     (if BSL \<notin> set repl then Inr (re_sub_section (\<lambda>m. repl) content)
      else (case compile_template repl of
              None \<Rightarrow> Inl ReError
            | Some f \<Rightarrow> Inr (re_sub_section f content)))"

datatype update_mode = Append | Replace

text \<open>The new section: the heading, one line per reference, an empty line.\<close>

definition render_section :: "reference list \<Rightarrow> string" where
  "render_section references =
     foldl (\<lambda>new_section (source_title, source_path).
              new_section @ ''- [['' @ source_title @ '']]'' @ [NL])
       heading references @ [NL]"

text \<open>The branch for a text with no section: the new section goes to the end.\<close>

definition append_section :: "string \<Rightarrow> string \<Rightarrow> string" where
  "append_section content new_section =
     (if \<not> endswith content [NL, NL]
      then content @ (if \<not> endswith content [NL] then [NL, NL] else [NL])
      else content) @ new_section"

definition write_file :: "path \<Rightarrow> string \<Rightarrow> vault \<Rightarrow> vault" where
  "write_file p c v = v\<lparr>contents := (contents v)(p \<mapsto> c), written := written v @ [p]\<rparr>"

text \<open>
  \<open>open(target_file, 'w')\<close> and \<open>f.write(content)\<close>: the file gets the text, or
  the write raises and the vault stays as it is.
\<close>

definition open_write :: "path \<Rightarrow> string \<Rightarrow> vault \<Rightarrow> error + vault" where
  "open_write p c v = (if writable v p then Inr (write_file p c v) else Inl IOError)"

text \<open>One round of the loop of \<open>update_files_with_backlinks\<close>.\<close>

definition update_file ::
  "template_compiler \<Rightarrow> update_mode \<Rightarrow> path \<times> reference list \<Rightarrow> vault \<Rightarrow> error + vault" where
  "update_file tc update_mode item v =
     (case item of (target_file, references) \<Rightarrow>
        if references = [] then Inr v
        else (case contents v target_file of
                None \<Rightarrow> Inl IOError
              | Some content \<Rightarrow>
                  (let new_section = render_section references in
                   if existing_section content \<and> update_mode = Replace
                   then (case re_sub tc new_section content of
                           Inl e \<Rightarrow> Inl e
                         | Inr content' \<Rightarrow> open_write target_file content' v)
                   else if existing_section content \<and> update_mode = Append
                   then Inr v
                   else open_write target_file (append_section content new_section) v)))"

text \<open>
  The loop. An exception ends the run: the result is then \<open>Inl\<close> of the error
  and the vault as the files written before it left it.
\<close>

fun update_files_with_backlinks ::
  "template_compiler \<Rightarrow> backlinks \<Rightarrow> update_mode \<Rightarrow> vault \<Rightarrow> error \<times> vault + vault" where
  "update_files_with_backlinks tc [] update_mode v = Inr v"
| "update_files_with_backlinks tc (item # items) update_mode v =
     (case update_file tc update_mode item v of
        Inl e \<Rightarrow> Inl (e, v)
      | Inr v' \<Rightarrow> update_files_with_backlinks tc items update_mode v')"

text \<open>
  \<open>main\<close>: \<open>walk\<close> is what \<open>os.walk\<close> lists under the vault path, \<open>update_mode\<close>
  and \<open>text_refs\<close> are the parsed \<open>--mode\<close> and \<open>--text-refs\<close>. The flag is
  parsed and passed to nothing. \<open>set_order\<close> and \<open>tc\<close> are the iteration order
  of sets and the template compiler of the Python that runs the program.
\<close>

definition main ::
  "set_iteration \<Rightarrow> template_compiler \<Rightarrow> path list \<Rightarrow> update_mode \<Rightarrow> bool \<Rightarrow> vault
     \<Rightarrow> error \<times> vault + vault" where
  "main set_order tc walk update_mode text_refs v =
     (let markdown_files = find_markdown_files walk
      in case generate_backlinks set_order v markdown_files of
           Inl e \<Rightarrow> Inl (e, v)
         | Inr backlinks \<Rightarrow> update_files_with_backlinks tc backlinks update_mode v)"

text \<open>The vault a run ends with, whether it raised or not.\<close>

fun final :: "error \<times> vault + vault \<Rightarrow> vault" where
  "final (Inl (e, v)) = v"
| "final (Inr v) = v"

section \<open>Notions of the statements\<close>

text \<open>The references the index holds for a file: none when the file is no key.\<close>

definition references_of :: "backlinks \<Rightarrow> path \<Rightarrow> reference list" where
  "references_of bl p = (case map_of bl p of None \<Rightarrow> [] | Some refs \<Rightarrow> refs)"

text \<open>The list \<open>links + text_refs\<close> of one file.\<close>

definition reference_titles :: "string list \<Rightarrow> string \<Rightarrow> string list" where
  "reference_titles note_titles content =
     parse_links content @ find_text_references content note_titles"

text \<open>Does the file \<open>f\<close> refer to the file \<open>p\<close>: one of its reference titles is
  mapped to \<open>p\<close>.\<close>

definition refers_to :: "vault \<Rightarrow> string list \<Rightarrow> (string \<rightharpoonup> path) \<Rightarrow> path \<Rightarrow> path \<Rightarrow> bool" where
  "refers_to v note_titles ftm p f =
     (case contents v f of
        None \<Rightarrow> False
      | Some content \<Rightarrow> \<exists>r \<in> set (reference_titles note_titles content). ftm r = Some p)"

section \<open>Example vaults\<close>

definition text_c7 :: string where
  "text_c7 = ''text'' @ [NL, NL] @ ''## Backlinks'' @ [NL, NL] @ ''- [[Z]]'' @ [NL, NL]"

definition vault_c7 :: vault where
  "vault_c7 = \<lparr>contents = [''v/A.md'' \<mapsto> ''see [[B]]'', ''v/B.md'' \<mapsto> text_c7], writable = (\<lambda>p. True), written = []\<rparr>"

definition vault_c8 :: vault where
  "vault_c8 = \<lparr>contents = [''v/A.md'' \<mapsto> ''see [[B]]'', ''v/B.md'' \<mapsto> ''text'',
      ''v/C.md'' \<mapsto> ''alone''], writable = (\<lambda>p. True), written = []\<rparr>"

definition walk_c8 :: "path list" where
  "walk_c8 = [''v/A.md'', ''v/B.md'', ''v/C.md'', ''v/notes.txt'']"

definition vault_c10 :: vault where
  "vault_c10 = \<lparr>contents = [''v/A.md'' \<mapsto> ''see [[Nowhere]] and [[B]]'', ''v/B.md'' \<mapsto> ''x''],
      writable = (\<lambda>p. True), written = []\<rparr>"

definition vault_c1 :: vault where
  "vault_c1 = \<lparr>contents = [''vault/Alpha.md'' \<mapsto> ''Beta is mentioned here'',
      ''vault/Beta.md'' \<mapsto> ''nothing''], writable = (\<lambda>p. True), written = []\<rparr>"

definition walk_c1 :: "path list" where
  "walk_c1 = [''vault/Alpha.md'', ''vault/Beta.md'']"

definition vault_c5 :: vault where
  "vault_c5 = \<lparr>contents = [''vault/A.md'' \<mapsto> ''see [[B]] and [[B]] again'',
      ''vault/B.md'' \<mapsto> ''nothing here'', ''vault/C.md'' \<mapsto> ''B is interesting''],
      writable = (\<lambda>p. True), written = []\<rparr>"

definition walk_c5 :: "path list" where
  "walk_c5 = [''vault/A.md'', ''vault/B.md'', ''vault/C.md'']"

definition vault_c4 :: vault where
  "vault_c4 = \<lparr>contents = [''vault/a/X.md'' \<mapsto> ''[[B]]'', ''vault/b/X.md'' \<mapsto> ''[[B]]'',
      ''vault/B.md'' \<mapsto> ''text''], writable = (\<lambda>p. True), written = []\<rparr>"

definition walk_c4 :: "path list" where
  "walk_c4 = [''vault/B.md'', ''vault/a/X.md'', ''vault/b/X.md'']"

text \<open>The text of a file after a run, empty when the file cannot be read.\<close>

definition text_after :: "error \<times> vault + vault \<Rightarrow> path \<Rightarrow> string" where
  "text_after r p = (case contents (final r) p of None \<Rightarrow> [] | Some c \<Rightarrow> c)"

text \<open>One line of the section, and the lines of a list of references.\<close>

definition entry_body :: "reference \<Rightarrow> string" where
  "entry_body ref = ''- [['' @ fst ref @ '']]''"

definition entry_line :: "reference \<Rightarrow> string" where
  "entry_line ref = entry_body ref @ [NL]"

definition entry_lines :: "reference list \<Rightarrow> string" where
  "entry_lines references = concat (map entry_line references)"

text \<open>A title with no backslash and no line break.\<close>

definition plain_title :: "string \<Rightarrow> bool" where
  "plain_title title = (BSL \<notin> set title \<and> NL \<notin> set title)"

definition text_c2 :: string where
  "text_c2 = ''intro'' @ [NL, NL] @ ''## Backlinks'' @ [NL, NL] @ ''- [[Old]]'' @ [NL, NL] @
     ''middle'' @ [NL, NL] @ ''## Backlinks'' @ [NL, NL] @ ''- [[Older]]'' @ [NL, NL]"

definition rest_c2 :: string where
  "rest_c2 = ''middle'' @ [NL, NL] @ ''## Backlinks'' @ [NL, NL] @ ''- [[Older]]'' @ [NL, NL]"

definition vault_c2 :: vault where
  "vault_c2 = \<lparr>contents = [''vault/A.md'' \<mapsto> ''[[B]]'', ''vault/B.md'' \<mapsto> text_c2],
      writable = (\<lambda>p. True), written = []\<rparr>"

definition walk_c2 :: "path list" where
  "walk_c2 = [''vault/A.md'', ''vault/B.md'']"

text \<open>
  The words of the specification for the literal-text strategy: an occurrence
  of \<open>n\<close> characters at index \<open>i\<close> is enclosed by the brackets of an explicit
  link when some \<open>[[\<close> opens at an index \<open>a\<close> before it, the first \<open>]]\<close> after
  that opening stands at an index \<open>b\<close> behind it, and no line break lies
  between the two: the occurrence is part of what a link holds.
\<close>

definition enclosed_by_link :: "string \<Rightarrow> nat \<Rightarrow> nat \<Rightarrow> bool" where
  "enclosed_by_link content i n =
     (\<exists>a \<in> set [0 ..< Suc i]. \<exists>b \<in> set [i + n ..< Suc (length content)].
        a + 2 \<le> i \<and> take 2 (drop a content) = ''[['' \<and> take 2 (drop b content) = '']]'' \<and>
        \<not> sublist '']]'' (take (b - (a + 2)) (drop (a + 2) content)) \<and>
        NL \<notin> set (take (b - (a + 2)) (drop (a + 2) content)))"

text \<open>The indices at which a title stands in a content.\<close>

definition occurrences :: "string \<Rightarrow> string \<Rightarrow> nat list" where
  "occurrences title content =
     filter (\<lambda>i. take (length title) (drop i content) = title) [0 ..< Suc (length content)]"

definition tail_c2 :: string where
  "tail_c2 = ''- [[Old]]'' @ [NL] @ ''- [[Older]]'' @ [NL]"

text \<open>
  The text a round of the loop leaves in a file it can read, when the new
  section is taken literally: the branches of the loop body.
\<close>

definition rewritten :: "update_mode \<Rightarrow> reference list \<Rightarrow> string \<Rightarrow> string" where
  "rewritten update_mode references content =
     (if existing_section content \<and> update_mode = Replace
      then re_sub_section (\<lambda>m. render_section references) content
      else if existing_section content \<and> update_mode = Append then content
      else append_section content (render_section references))"

text \<open>The texts a whole loop over the index leaves, file by file.\<close>

definition rewritten_all ::
  "update_mode \<Rightarrow> backlinks \<Rightarrow> (path \<rightharpoonup> string) \<Rightarrow> (path \<rightharpoonup> string)" where
  "rewritten_all update_mode bl texts =
     (\<lambda>p. if references_of bl p = [] then texts p
          else map_option (rewritten update_mode (references_of bl p)) (texts p))"

text \<open>
  A text with no section that ends with the heading line itself, with or
  without its line break: appending a section to it puts an empty line behind
  that heading line, and the pattern then matches from there.
\<close>

definition bare_heading_at_end :: "string \<Rightarrow> bool" where
  "bare_heading_at_end content =
     (\<not> existing_section content \<and>
      (endswith content ''## Backlinks'' \<or> endswith content (''## Backlinks'' @ [NL])))"

definition vault_c3 :: vault where
  "vault_c3 = \<lparr>contents = [''vault/A.md'' \<mapsto> ''[[B]]'' @ [NL] @ ''## Backlinks'',
      ''vault/B.md'' \<mapsto> ''x''], writable = (\<lambda>p. True), written = []\<rparr>"

definition walk_c3 :: "path list" where
  "walk_c3 = [''vault/A.md'', ''vault/B.md'']"

text \<open>One run in replace mode over \<open>walk_c3\<close>, and the vault it ends with.\<close>

definition run_c3 :: "vault \<Rightarrow> error \<times> vault + vault" where
  "run_c3 v = main remdups (\<lambda>t. None) walk_c3 Replace False v"

definition vault_c3_stable :: vault where
  "vault_c3_stable = \<lparr>contents =
      [''vault/A.md'' \<mapsto> ''see [[B]]'' @ [NL, NL] @ ''## Backlinks'' @ [NL, NL] @ ''- [[B]]'' @ [NL, NL],
       ''vault/B.md'' \<mapsto> ''back to [[A]]''], writable = (\<lambda>p. True), written = []\<rparr>"

section \<open>What the literal-text strategy reports\<close>

lemma find_text_references_set:
  "set (find_text_references content note_titles) =
     {t \<in> set note_titles. \<not> length t < 3 \<and> re_search_title t content}"
proof (induction note_titles)
  case Nil
  show ?case by simp
next
  case (Cons title note_titles)
  show ?case
  proof (cases "length title < 3")
    case True
    then show ?thesis using Cons.IH by (simp del: One_nat_def) blast
  next
    case False
    then show ?thesis using Cons.IH by (cases "re_search_title title content") (simp, blast)+
  qed
qed

lemma prefix_take2: "prefix [a, b] s \<longleftrightarrow> take 2 s = [a, b]"
proof (cases s)
  case Nil
  then show ?thesis by simp
next
  case (Cons x xs)
  then show ?thesis by (cases xs) (auto simp: numeral_2_eq_2)
qed

lemma suffix_take2:
  assumes "i \<le> length s"
  shows "suffix [a, b] (take i s) \<longleftrightarrow> 2 \<le> i \<and> take 2 (drop (i - 2) s) = [a, b]"
proof
  assume "suffix [a, b] (take i s)"
  then obtain p where p: "take i s = p @ [a, b]" by (auto simp: suffix_def)
  then have "length (take i s) = length p + 2" by simp
  with assms have i: "i = length p + 2" by simp
  from p have "take 2 (drop (i - 2) (take i s)) = [a, b]" using i by simp
  then have "take 2 (drop (i - 2) s) = [a, b]" using i
    by (simp add: drop_take take_take)
  with i show "2 \<le> i \<and> take 2 (drop (i - 2) s) = [a, b]" by simp
next
  assume a: "2 \<le> i \<and> take 2 (drop (i - 2) s) = [a, b]"
  then have "i = (i - 2) + 2" by linarith
  then have "take i s = take (i - 2) s @ take 2 (drop (i - 2) s)"
    by (metis take_add)
  with a show "suffix [a, b] (take i s)" by (simp add: suffix_def)
qed

lemma text_match_at_split:
  assumes "text_match_at title content i" and "i \<le> length content"
  shows "\<exists>pre post. content = pre @ title @ post \<and> \<not> suffix ''[['' pre \<and> \<not> prefix '']]'' post"
proof -
  let ?pre = "take i content" and ?post = "drop (i + length title) content"
  from assms(1) have t: "take (length title) (drop i content) = title"
    and b: "\<not> (2 \<le> i \<and> take 2 (drop (i - 2) content) = ''[['')"
    and a: "take 2 ?post \<noteq> '']]''"
    unfolding text_match_at_def by blast+
  have "drop i content = take (length title) (drop i content) @ drop (length title) (drop i content)"
    by (rule append_take_drop_id[symmetric])
  with t have "drop i content = title @ ?post" by (simp add: add.commute)
  then have c: "content = ?pre @ title @ ?post"
    by (metis append_take_drop_id)
  have p: "\<not> suffix ''[['' ?pre" unfolding suffix_take2[OF assms(2)] by (rule b)
  have q: "\<not> prefix '']]'' ?post" unfolding prefix_take2 by (rule a)
  show ?thesis
    by (rule exI[of _ ?pre], rule exI[of _ ?post]) (use c p q in \<open>simp only: simp_thms\<close>)
qed

text \<open>
  C6, as the spec states it, fails: a title that stands only inside an explicit
  link, away from its brackets, is reported. In \<open>[[x Beta y]]\<close> and in
  \<open>[[Gamma|see Beta here]]\<close> the one occurrence of \<open>Beta\<close> is enclosed by the
  brackets of the link that the link parser finds, and the literal-text strategy
  reports \<open>Beta\<close>.
\<close>

theorem title_inside_link_reported:
  "parse_links ''[[x Beta y]]'' = [''x Beta y''] \<and>
   occurrences ''Beta'' ''[[x Beta y]]'' = [4] \<and>
   enclosed_by_link ''[[x Beta y]]'' 4 (length ''Beta'') \<and>
   find_text_references ''[[x Beta y]]'' [''Beta''] = [''Beta''] \<and>
   parse_links ''[[Gamma|see Beta here]]'' = [''Gamma''] \<and>
   occurrences ''Beta'' ''[[Gamma|see Beta here]]'' = [12] \<and>
   enclosed_by_link ''[[Gamma|see Beta here]]'' 12 (length ''Beta'') \<and>
   find_text_references ''[[Gamma|see Beta here]]'' [''Gamma'', ''Beta''] = [''Beta'']"
  by code_simp

text \<open>
  C6, amended: the literal-text strategy reports a title only when the title is
  one of the known titles, has at least 3 characters, and stands somewhere in
  the content with no \<open>[[\<close> directly before it and no \<open>]]\<close> directly after it.
  Only the two characters on each side of the occurrence are looked at.
\<close>

theorem text_reference_only_outside_brackets:
  assumes "title \<in> set (find_text_references content note_titles)"
  shows "title \<in> set note_titles \<and> 3 \<le> length title \<and>
    (\<exists>pre post. content = pre @ title @ post \<and> \<not> suffix ''[['' pre \<and> \<not> prefix '']]'' post)"
proof -
  from assms have t: "title \<in> set note_titles" and l: "\<not> length title < 3"
    and "re_search_title title content"
    unfolding find_text_references_set by blast+
  then obtain i where "i \<le> length content" and "text_match_at title content i"
    unfolding re_search_title_def by (metis atLeastLessThan_iff less_Suc_eq_le set_upt)
  from text_match_at_split[OF this(2) this(1)] t l
  show ?thesis by (simp add: not_less)
qed

text \<open>
  C9: a title of fewer than 3 characters is never reported by the literal-text
  strategy, whatever the content and the list of known titles.
\<close>

theorem short_title_never_reported:
  "length title < 3 \<Longrightarrow> title \<notin> set (find_text_references content note_titles)"
  unfolding find_text_references_set by blast


theorem text_reference_only_outside_brackets_witness:
  "''Beta'' \<in> set (find_text_references ''see Beta and [[Beta]]'' [''Alpha'', ''Beta'']) \<and>
   (\<exists>pre post. ''see Beta and [[Beta]]'' = pre @ ''Beta'' @ post \<and>
      \<not> suffix ''[['' pre \<and> \<not> prefix '']]'' post)"
proof -
  have h: "''Beta'' \<in> set (find_text_references ''see Beta and [[Beta]]'' [''Alpha'', ''Beta''])"
    by code_simp
  show ?thesis
    by (rule conjI[OF h text_reference_only_outside_brackets[OF h, THEN conjunct2, THEN conjunct2]])
qed

theorem short_title_never_reported_witness:
  "length ''Hi'' < 3 \<and> ''Hi'' \<notin> set (find_text_references ''Hi there, Hi'' [''Hi'', ''there''])"
proof -
  have h: "length ''Hi'' < 3" by simp
  show ?thesis by (rule conjI[OF h short_title_never_reported[OF h]])
qed

section \<open>The index: keys and references\<close>

lemma dict_append_keys:
  "map fst (dict_append bl k x) = (if k \<in> set (map fst bl) then map fst bl else map fst bl @ [k])"
  by (induction bl k x rule: dict_append.induct) auto

lemma dict_append_distinct:
  "distinct (map fst bl) \<Longrightarrow> distinct (map fst (dict_append bl k x))"
  by (simp add: dict_append_keys)

lemma dict_append_map_of:
  "map_of (dict_append bl k x) =
     (map_of bl)(k \<mapsto> (case map_of bl k of None \<Rightarrow> [x] | Some xs \<Rightarrow> xs @ [x]))"
  by (induction bl k x rule: dict_append.induct) (auto simp: fun_eq_iff)

lemma references_of_dict_append:
  "references_of (dict_append bl k x) p = references_of bl p @ (if k = p then [x] else [])"
  by (simp add: references_of_def dict_append_map_of split: option.splits)

lemma dict_append_nonempty:
  "\<forall>(k, xs) \<in> set bl. xs \<noteq> [] \<Longrightarrow> \<forall>(k, xs) \<in> set (dict_append bl k' x). xs \<noteq> []"
  by (induction bl k' x rule: dict_append.induct) auto

lemma add_ref_keys_distinct:
  "distinct (map fst bl) \<Longrightarrow> distinct (map fst (add_ref ftm src bl ref))"
  by (simp add: add_ref_def dict_append_distinct split: option.splits)

lemma dict_append_key_set:
  "set (map fst (dict_append bl k x)) = insert k (set (map fst bl))"
  by (auto simp: dict_append_keys)

lemma add_ref_keys_subset:
  "set (map fst (add_ref ftm src bl ref)) \<subseteq> set (map fst bl) \<union> ran ftm"
proof (cases "ftm ref")
  case None
  then show ?thesis by (simp add: add_ref_def)
next
  case (Some target_file)
  then have "target_file \<in> ran ftm" by (rule ranI)
  with Some show ?thesis by (simp add: add_ref_def dict_append_key_set del: set_map)
qed

lemma references_of_add_ref:
  "references_of (add_ref ftm src bl ref) p =
     references_of bl p @ (if ftm ref = Some p then [src] else [])"
  by (simp add: add_ref_def references_of_dict_append split: option.splits)

lemma add_refs_keys_distinct:
  "distinct (map fst bl) \<Longrightarrow> distinct (map fst (add_refs ftm src refs bl))"
  unfolding add_refs_def by (induction refs arbitrary: bl) (simp_all add: add_ref_keys_distinct)

lemma add_refs_keys_subset:
  "set (map fst (add_refs ftm src refs bl)) \<subseteq> set (map fst bl) \<union> ran ftm"
  unfolding add_refs_def
proof (induction refs arbitrary: bl)
  case Nil
  then show ?case by simp
next
  case (Cons r refs)
  have "set (map fst (foldl (add_ref ftm src) (add_ref ftm src bl r) refs))
          \<subseteq> set (map fst (add_ref ftm src bl r)) \<union> ran ftm"
    by (rule Cons.IH)
  with add_ref_keys_subset[of ftm src bl r] show ?case unfolding foldl_Cons by blast
qed

text \<open>A title map is one-to-one when no two titles name the same file.\<close>

lemma references_of_add_refs:
  assumes "distinct refs"
    and "\<And>r r'. ftm r = Some p \<Longrightarrow> ftm r' = Some p \<Longrightarrow> r = r'"
  shows "references_of (add_refs ftm src refs bl) p =
     references_of bl p @ (if \<exists>r \<in> set refs. ftm r = Some p then [src] else [])"
  using assms(1) unfolding add_refs_def
proof (induction refs arbitrary: bl)
  case Nil
  then show ?case by simp
next
  case (Cons r refs)
  from Cons.prems have d: "distinct refs" and nr: "r \<notin> set refs" by simp_all
  have step: "references_of (foldl (add_ref ftm src) (add_ref ftm src bl r) refs) p =
      references_of (add_ref ftm src bl r) p @
        (if \<exists>r' \<in> set refs. ftm r' = Some p then [src] else [])"
    by (rule Cons.IH[OF d])
  show ?case
  proof (cases "ftm r = Some p")
    case True
    with nr assms(2) have "\<not> (\<exists>r' \<in> set refs. ftm r' = Some p)" by blast
    with True step show ?thesis by (simp add: references_of_add_ref)
  next
    case False
    with step show ?thesis by (simp add: references_of_add_ref)
  qed
qed

lemma add_refs_nonempty:
  "\<forall>(k, xs) \<in> set bl. xs \<noteq> [] \<Longrightarrow> \<forall>(k, xs) \<in> set (add_refs ftm src refs bl). xs \<noteq> []"
  unfolding add_refs_def
proof (induction refs arbitrary: bl)
  case Nil
  then show ?case by simp
next
  case (Cons r refs)
  have "\<forall>(k, xs) \<in> set (add_ref ftm src bl r). xs \<noteq> []"
    using Cons.prems dict_append_nonempty[of bl] by (simp add: add_ref_def split: option.splits)
  from Cons.IH[OF this] show ?case by simp
qed


lemma file_title_map_snoc:
  "file_title_map (fs @ [f]) = (file_title_map fs)(extract_note_title f \<mapsto> f)"
  by (simp add: file_title_map_def)

lemma file_title_map_Some:
  "file_title_map fs t = Some f \<Longrightarrow> f \<in> set fs \<and> extract_note_title f = t"
proof (induction fs rule: rev_induct)
  case Nil
  then show ?case by (simp add: file_title_map_def)
next
  case (snoc x xs)
  then show ?case by (cases "extract_note_title x = t") (simp_all add: file_title_map_snoc)
qed

lemma file_title_map_None:
  "file_title_map fs t = None \<longleftrightarrow> t \<notin> set (map extract_note_title fs)"
proof (induction fs rule: rev_induct)
  case Nil
  then show ?case by (simp add: file_title_map_def)
next
  case (snoc x xs)
  then show ?case by (cases "extract_note_title x = t") (simp_all add: file_title_map_snoc)
qed

lemma file_title_map_ran: "ran (file_title_map fs) \<subseteq> set fs"
proof
  fix f assume "f \<in> ran (file_title_map fs)"
  then obtain t where "file_title_map fs t = Some f" by (auto simp: ran_def)
  then show "f \<in> set fs" by (simp add: file_title_map_Some)
qed

lemma file_title_map_inj:
  "file_title_map fs r = Some p \<Longrightarrow> file_title_map fs r' = Some p \<Longrightarrow> r = r'"
  using file_title_map_Some by metis

lemma file_title_map_distinct:
  assumes "distinct (map extract_note_title fs)" and "f \<in> set fs"
  shows "file_title_map fs (extract_note_title f) = Some f"
  using assms
proof (induction fs rule: rev_induct)
  case Nil
  then show ?case by simp
next
  case (snoc x xs)
  show ?case
  proof (cases "f = x")
    case True
    then show ?thesis by (simp add: file_title_map_snoc)
  next
    case False
    with snoc.prems have fx: "f \<in> set xs" and d: "distinct (map extract_note_title xs)"
      and nx: "extract_note_title x \<notin> set (map extract_note_title xs)" by auto
    from fx nx have "extract_note_title x \<noteq> extract_note_title f" by auto
    with snoc.IH[OF d fx] show ?thesis by (simp add: file_title_map_snoc)
  qed
qed

text \<open>The loop over the files, from any index built so far.\<close>

lemma scan_files_Cons_Some:
  "contents v file_path = Some content \<Longrightarrow>
   scan_files set_order v note_titles ftm (file_path # rest) bl =
     scan_files set_order v note_titles ftm rest
       (add_refs ftm (extract_note_title file_path, file_path)
          (set_order (reference_titles note_titles content)) bl)"
  by (simp add: Let_def reference_titles_def)

lemma scan_files_Cons_None:
  "contents v file_path = None \<Longrightarrow>
   scan_files set_order v note_titles ftm (file_path # rest) bl = Inl IOError"
  by simp

lemma scan_files_returns:
  "\<forall>f \<in> set files. contents v f \<noteq> None \<Longrightarrow> \<exists>bl'. scan_files set_order v note_titles ftm files bl = Inr bl'"
proof (induction files arbitrary: bl)
  case Nil
  then show ?case by simp
next
  case (Cons f files)
  then obtain content where c: "contents v f = Some content" by auto
  from Cons.prems have "\<forall>f \<in> set files. contents v f \<noteq> None" by simp
  from Cons.IH[OF this] show ?case unfolding scan_files_Cons_Some[OF c] .
qed

lemma scan_files_distinct:
  "scan_files set_order v note_titles ftm files bl = Inr bl' \<Longrightarrow> distinct (map fst bl) \<Longrightarrow>
   distinct (map fst bl')"
proof (induction files arbitrary: bl)
  case Nil
  then show ?case by simp
next
  case (Cons f files)
  show ?case
  proof (cases "contents v f")
    case None
    with Cons.prems(1) show ?thesis by (simp only: scan_files_Cons_None) simp
  next
    case (Some content)
    from Cons.prems(1) show ?thesis unfolding scan_files_Cons_Some[OF Some]
      by (rule Cons.IH) (rule add_refs_keys_distinct[OF Cons.prems(2)])
  qed
qed

lemma scan_files_keys:
  "scan_files set_order v note_titles ftm files bl = Inr bl' \<Longrightarrow>
   set (map fst bl') \<subseteq> set (map fst bl) \<union> ran ftm"
proof (induction files arbitrary: bl)
  case Nil
  then show ?case by auto
next
  case (Cons f files)
  show ?case
  proof (cases "contents v f")
    case None
    with Cons.prems(1) show ?thesis by (simp only: scan_files_Cons_None) simp
  next
    case (Some content)
    from Cons.prems(1) have "set (map fst bl') \<subseteq>
      set (map fst (add_refs ftm (extract_note_title f, f)
        (set_order (reference_titles note_titles content)) bl)) \<union> ran ftm"
      unfolding scan_files_Cons_Some[OF Some] by (rule Cons.IH)
    with add_refs_keys_subset[of ftm "(extract_note_title f, f)"
        "set_order (reference_titles note_titles content)" bl]
    show ?thesis by blast
  qed
qed

lemma scan_files_nonempty:
  "scan_files set_order v note_titles ftm files bl = Inr bl' \<Longrightarrow> \<forall>(k, xs) \<in> set bl. xs \<noteq> [] \<Longrightarrow>
   \<forall>(k, xs) \<in> set bl'. xs \<noteq> []"
proof (induction files arbitrary: bl)
  case Nil
  then show ?case by simp
next
  case (Cons f files)
  show ?case
  proof (cases "contents v f")
    case None
    with Cons.prems(1) show ?thesis by (simp only: scan_files_Cons_None) simp
  next
    case (Some content)
    from Cons.prems(1) show ?thesis unfolding scan_files_Cons_Some[OF Some]
      by (rule Cons.IH) (rule add_refs_nonempty[OF Cons.prems(2)])
  qed
qed

lemma scan_files_references:
  assumes "iteration_order set_order"
    and "\<And>r r'. ftm r = Some p \<Longrightarrow> ftm r' = Some p \<Longrightarrow> r = r'"
  shows "scan_files set_order v note_titles ftm files bl = Inr bl' \<Longrightarrow>
    references_of bl' p = references_of bl p @
      map (\<lambda>f. (extract_note_title f, f)) (filter (refers_to v note_titles ftm p) files)"
proof (induction files arbitrary: bl)
  case Nil
  then show ?case by simp
next
  case (Cons f files)
  show ?case
  proof (cases "contents v f")
    case None
    with Cons.prems(1) show ?thesis by (simp only: scan_files_Cons_None) simp
  next
    case (Some content)
    let ?refs = "set_order (reference_titles note_titles content)"
    let ?bl = "add_refs ftm (extract_note_title f, f) ?refs bl"
    from assms(1) have d: "distinct ?refs" and st: "set ?refs = set (reference_titles note_titles content)"
      unfolding iteration_order_def by blast+
    from Cons.prems(1) have "references_of bl' p = references_of ?bl p @
      map (\<lambda>f. (extract_note_title f, f)) (filter (refers_to v note_titles ftm p) files)"
      unfolding scan_files_Cons_Some[OF Some] by (rule Cons.IH)
    moreover from d have "references_of ?bl p = references_of bl p @
      (if \<exists>r \<in> set ?refs. ftm r = Some p then [(extract_note_title f, f)] else [])"
      by (rule references_of_add_refs) (rule assms(2))
    moreover have "refers_to v note_titles ftm p f \<longleftrightarrow> (\<exists>r \<in> set ?refs. ftm r = Some p)"
      unfolding st by (simp add: refers_to_def Some)
    ultimately show ?thesis by simp
  qed
qed

section \<open>The rewriting loop: what a run leaves alone\<close>

lemma update_files_invariant:
  assumes "P v"
    and "\<And>item u u'. item \<in> set bl \<Longrightarrow> P u \<Longrightarrow> update_file tc update_mode item u = Inr u' \<Longrightarrow> P u'"
  shows "P (final (update_files_with_backlinks tc bl update_mode v))"
  using assms
proof (induction bl arbitrary: v)
  case Nil
  then show ?case by simp
next
  case (Cons item items)
  show ?case
  proof (cases "update_file tc update_mode item v")
    case (Inl e)
    with Cons.prems(1) show ?thesis by simp
  next
    case (Inr v')
    have "P v'" using Cons.prems(2)[OF _ Cons.prems(1) Inr] by simp
    then have "P (final (update_files_with_backlinks tc items update_mode v'))"
      using Cons.prems(2) by (intro Cons.IH) auto
    with Inr show ?thesis by simp
  qed
qed

lemma main_Inl: "generate_backlinks set_order v (find_markdown_files walk) = Inl e \<Longrightarrow>
   main set_order tc walk update_mode text_refs v = Inl (e, v)"
  unfolding main_def Let_def by (simp only: sum.case)

lemma main_Inr: "generate_backlinks set_order v (find_markdown_files walk) = Inr bl \<Longrightarrow>
   main set_order tc walk update_mode text_refs v = update_files_with_backlinks tc bl update_mode v"
  unfolding main_def Let_def by (simp only: sum.case)

lemma main_invariant:
  assumes "P v"
    and "\<And>item u u'. P u \<Longrightarrow> update_file tc update_mode item u = Inr u' \<Longrightarrow> P u'"
  shows "P (final (main set_order tc walk update_mode text_refs v))"
proof (cases "generate_backlinks set_order v (find_markdown_files walk)")
  case (Inl e)
  show ?thesis unfolding main_Inl[OF Inl] final.simps by (rule assms(1))
next
  case (Inr bl)
  have "P (final (update_files_with_backlinks tc bl update_mode v))"
    by (rule update_files_invariant[where P = P, OF assms(1)]) (rule assms(2))
  then show ?thesis unfolding main_Inr[OF Inr] .
qed

lemma update_file_append_keeps:
  assumes "update_file tc Append item u = Inr u'"
    and "contents u p = Some c" and "existing_section c"
  shows "contents u' p = Some c"
proof -
  obtain target_file references where item: "item = (target_file, references)"
    by (cases item)
  show ?thesis
  proof (cases "target_file = p")
    case True
    with assms item have "u' = u"
      by (simp add: update_file_def Let_def split: if_splits)
    with assms(2) show ?thesis by simp
  next
    case False
    with assms item show ?thesis
      by (auto simp: update_file_def Let_def open_write_def write_file_def
          split: if_splits option.splits sum.splits)
  qed
qed

text \<open>
  C7: in append mode a file whose text already has a Backlinks section (the
  section pattern matches in it) has the same text after the run, whatever the
  index holds for it and whether or not the run ends with an exception.
\<close>

theorem append_keeps_existing_section:
  assumes "contents v p = Some c" and "existing_section c"
  shows "contents (final (main set_order tc walk Append text_refs v)) p = Some c"
proof -
  let ?P = "\<lambda>u. contents u p = Some c"
  have "?P (final (main set_order tc walk Append text_refs v))"
  proof (rule main_invariant[where P = ?P])
    show "?P v" by (rule assms(1))
  next
    fix item u u'
    assume "?P u" and "update_file tc Append item u = Inr u'"
    then show "?P u'" by (rule update_file_append_keeps[OF _ _ assms(2), rotated])
  qed
  then show ?thesis .
qed

theorem append_keeps_existing_section_witness:
  "contents vault_c7 ''v/B.md'' = Some text_c7 \<and> existing_section text_c7 \<and>
   contents (final (main remdups (\<lambda>t. None) [''v/A.md'', ''v/B.md''] Append False vault_c7)) ''v/B.md''
     = Some text_c7"
proof -
  have h1: "contents vault_c7 ''v/B.md'' = Some text_c7" by code_simp
  have h2: "existing_section text_c7" by code_simp
  show ?thesis
    by (rule conjI[OF h1 conjI[OF h2 append_keeps_existing_section[OF h1 h2]]])
qed

section \<open>The index of a whole scan\<close>

lemma generate_backlinks_returns:
  "\<forall>f \<in> set markdown_files. contents v f \<noteq> None \<Longrightarrow>
   \<exists>bl. generate_backlinks set_order v markdown_files = Inr bl"
  unfolding generate_backlinks_def by (rule scan_files_returns)

lemma generate_backlinks_distinct:
  "generate_backlinks set_order v markdown_files = Inr bl \<Longrightarrow> distinct (map fst bl)"
  unfolding generate_backlinks_def by (erule scan_files_distinct) simp

lemma generate_backlinks_keys:
  assumes "generate_backlinks set_order v markdown_files = Inr bl"
  shows "set (map fst bl) \<subseteq> set markdown_files"
proof -
  from assms have "set (map fst bl) \<subseteq> set (map fst ([]::backlinks)) \<union> ran (file_title_map markdown_files)"
    unfolding generate_backlinks_def by (rule scan_files_keys)
  with file_title_map_ran[of markdown_files] show ?thesis by auto
qed

lemma generate_backlinks_nonempty:
  "generate_backlinks set_order v markdown_files = Inr bl \<Longrightarrow> \<forall>(k, xs) \<in> set bl. xs \<noteq> []"
  unfolding generate_backlinks_def by (erule scan_files_nonempty) simp

lemma generate_backlinks_references:
  assumes "iteration_order set_order"
    and "generate_backlinks set_order v markdown_files = Inr bl"
  shows "references_of bl p =
    map (\<lambda>f. (extract_note_title f, f))
      (filter (refers_to v (map extract_note_title markdown_files)
                 (file_title_map markdown_files) p) markdown_files)"
proof -
  have "references_of bl p = references_of ([]::backlinks) p @
    map (\<lambda>f. (extract_note_title f, f))
      (filter (refers_to v (map extract_note_title markdown_files)
                 (file_title_map markdown_files) p) markdown_files)"
    by (rule scan_files_references[OF assms(1) file_title_map_inj
          assms(2)[unfolded generate_backlinks_def]])
  then show ?thesis by (simp add: references_of_def)
qed

text \<open>
  The references of a file do not depend on the order in which the sets of
  titles are iterated: two runs of the scan that differ in that order only
  hold the same references for every file.
\<close>

lemma generate_backlinks_order:
  assumes "iteration_order set_order" and "iteration_order set_order'"
    and "generate_backlinks set_order v markdown_files = Inr bl"
    and "generate_backlinks set_order' v markdown_files = Inr bl'"
  shows "references_of bl' p = references_of bl p"
  unfolding generate_backlinks_references[OF assms(1) assms(3)]
    generate_backlinks_references[OF assms(2) assms(4)] by (rule refl)

lemma update_file_cases:
  assumes "update_file tc update_mode (t, refs) u = Inr u'"
  shows "u' = u \<or> (refs \<noteq> [] \<and> (\<exists>c'. u' = write_file t c' u))"
  using assms
  by (auto simp: update_file_def Let_def open_write_def split: if_splits option.splits sum.splits)

lemma references_of_member:
  assumes "distinct (map fst bl)" and "(p, refs) \<in> set bl"
  shows "references_of bl p = refs"
  using assms by (simp add: references_of_def)

text \<open>
  C8: a file for which the index holds no reference is not written by the
  run and has the same text after it, in append mode and in replace mode.
\<close>

theorem no_references_no_write:
  assumes "generate_backlinks set_order v (find_markdown_files walk) = Inr bl"
    and "references_of bl p = []"
  shows "contents (final (main set_order tc walk update_mode text_refs v)) p = contents v p \<and>
    (\<exists>ws. written (final (main set_order tc walk update_mode text_refs v)) = written v @ ws \<and> p \<notin> set ws)"
proof -
  let ?P = "\<lambda>u. contents u p = contents v p \<and> (\<exists>ws. written u = written v @ ws \<and> p \<notin> set ws)"
  have nokey: "t \<noteq> p" if "(t, refs) \<in> set bl" for t refs
  proof
    assume "t = p"
    with that have "references_of bl p = refs"
      using references_of_member[OF generate_backlinks_distinct[OF assms(1)]] by simp
    moreover from that generate_backlinks_nonempty[OF assms(1)] have "refs \<noteq> []" by auto
    ultimately show False using assms(2) by simp
  qed
  have "?P (final (update_files_with_backlinks tc bl update_mode v))"
  proof (rule update_files_invariant[where P = ?P])
    show "?P v" by simp
  next
    fix item u u'
    assume item: "item \<in> set bl" and P: "?P u" and upd: "update_file tc update_mode item u = Inr u'"
    obtain t refs where tr: "item = (t, refs)" by (cases item)
    with item nokey have tp: "t \<noteq> p" by simp
    from P obtain ws where ws: "written u = written v @ ws" "p \<notin> set ws" by blast
    from upd tr update_file_cases consider "u' = u" | c' where "u' = write_file t c' u" by blast
    then show "?P u'"
    proof cases
      case 1
      with P show ?thesis by simp
    next
      case 2
      from 2 tp P have c: "contents u' p = contents v p" by (simp add: write_file_def)
      from 2 ws(1) have w: "written u' = written v @ (ws @ [t])" by (simp add: write_file_def)
      from tp ws(2) have n: "p \<notin> set (ws @ [t])" by simp
      have "\<exists>ws'. written u' = written v @ ws' \<and> p \<notin> set ws'"
        by (rule exI[where x = "ws @ [t]"]) (rule conjI[OF w n])
      with c show ?thesis by (rule conjI)
    qed
  qed
  then show ?thesis unfolding main_Inr[OF assms(1)] .
qed

theorem no_references_no_write_witness:
  "generate_backlinks remdups vault_c8 (find_markdown_files walk_c8) = Inr [(''v/B.md'', [(''A'', ''v/A.md'')])] \<and>
   references_of [(''v/B.md'', [(''A'', ''v/A.md'')])] ''v/C.md'' = [] \<and>
   (contents (final (main remdups (\<lambda>t. None) walk_c8 Replace False vault_c8)) ''v/C.md''
      = contents vault_c8 ''v/C.md'' \<and>
    (\<exists>ws. written (final (main remdups (\<lambda>t. None) walk_c8 Replace False vault_c8))
       = written vault_c8 @ ws \<and> ''v/C.md'' \<notin> set ws))"
proof -
  have h1: "generate_backlinks remdups vault_c8 (find_markdown_files walk_c8)
      = Inr [(''v/B.md'', [(''A'', ''v/A.md'')])]" by code_simp
  have h2: "references_of [(''v/B.md'', [(''A'', ''v/A.md'')])] ''v/C.md'' = []" by code_simp
  show ?thesis by (rule conjI[OF h1 conjI[OF h2 no_references_no_write[OF h1 h2]]])
qed

text \<open>
  C10: a reference title that is the title of no scanned file adds nothing to
  the index, and a scan of readable files ends without an error, in an index
  in which no key has that title.
\<close>

theorem unresolved_titles_ignored:
  assumes "ref \<notin> set (map extract_note_title markdown_files)"
    and "\<forall>f \<in> set markdown_files. contents v f \<noteq> None"
  shows "add_ref (file_title_map markdown_files) src bl ref = bl \<and>
    (\<exists>bl'. generate_backlinks set_order v markdown_files = Inr bl' \<and>
       ref \<notin> set (map (\<lambda>item. extract_note_title (fst item)) bl'))"
proof -
  from assms(1) have "file_title_map markdown_files ref = None"
    by (simp only: file_title_map_None not_False_eq_True)
  then have a: "add_ref (file_title_map markdown_files) src bl ref = bl"
    by (simp add: add_ref_def)
  from generate_backlinks_returns[OF assms(2)]
  obtain bl' where bl': "generate_backlinks set_order v markdown_files = Inr bl'" by blast
  have "ref \<notin> set (map (\<lambda>item. extract_note_title (fst item)) bl')"
  proof
    assume "ref \<in> set (map (\<lambda>item. extract_note_title (fst item)) bl')"
    then obtain item where "item \<in> set bl'" and r: "ref = extract_note_title (fst item)" by auto
    then have "fst item \<in> set (map fst bl')" by simp
    with generate_backlinks_keys[OF bl'] have "fst item \<in> set markdown_files" by blast
    with r assms(1) show False by simp
  qed
  with a bl' show ?thesis by blast
qed

theorem unresolved_titles_ignored_witness:
  "''Nowhere'' \<in> set (parse_links ''see [[Nowhere]] and [[B]]'') \<and>
   ''Nowhere'' \<notin> set (map extract_note_title [''v/A.md'', ''v/B.md'']) \<and>
   (add_ref (file_title_map [''v/A.md'', ''v/B.md'']) (''A'', ''v/A.md'') [] ''Nowhere'' = [] \<and>
    (\<exists>bl'. generate_backlinks remdups vault_c10 [''v/A.md'', ''v/B.md''] = Inr bl' \<and>
       ''Nowhere'' \<notin> set (map (\<lambda>item. extract_note_title (fst item)) bl')))"
proof -
  have h0: "''Nowhere'' \<in> set (parse_links ''see [[Nowhere]] and [[B]]'')" by code_simp
  have h1: "''Nowhere'' \<notin> set (map extract_note_title [''v/A.md'', ''v/B.md''])" by code_simp
  have h2: "\<forall>f \<in> set [''v/A.md'', ''v/B.md'']. contents vault_c10 f \<noteq> None" by code_simp
  show ?thesis by (rule conjI[OF h0 conjI[OF h1 unresolved_titles_ignored[OF h1 h2]]])
qed

section \<open>The scenarios of the specification\<close>

text \<open>
  C1: \<open>main\<close> does not pass the flag on, and the scan calls the literal-text
  strategy for every file. With the flag off, a file that names \<open>Beta\<close> in
  plain text only (no link) is listed in the section written to \<open>Beta.md\<close>.
\<close>

theorem text_refs_flag_off_still_matches:
  "parse_links ''Beta is mentioned here'' = [] \<and>
   text_after (main remdups (\<lambda>t. None) walk_c1 Append False vault_c1) ''vault/Beta.md'' =
     ''nothing'' @ [NL, NL] @ ''## Backlinks'' @ [NL, NL] @ ''- [[Alpha]]'' @ [NL, NL]"
  by code_simp

text \<open>
  C5, as the spec states it, fails: in the scenario the section written to
  \<open>B.md\<close> has no entry for \<open>C\<close>.
\<close>

theorem scenario_no_entry_for_C:
  "\<not> sublist ''- [[C]]'' (text_after (main remdups (\<lambda>t. None) walk_c5 Append True vault_c5) ''vault/B.md'')"
  by code_simp

text \<open>
  C5, amended: in the scenario the title \<open>B\<close> has one character, the
  literal-text strategy reports nothing for \<open>C.md\<close>, the index holds for
  \<open>B.md\<close> the one reference from \<open>A.md\<close>, and the section written to \<open>B.md\<close> has
  the one entry \<open>- [[A]]\<close>.
\<close>

theorem scenario_only_entry_for_A:
  "find_text_references ''B is interesting'' (map extract_note_title walk_c5) = [] \<and>
   generate_backlinks remdups vault_c5 (find_markdown_files walk_c5) =
     Inr [(''vault/B.md'', [(''A'', ''vault/A.md'')])] \<and>
   text_after (main remdups (\<lambda>t. None) walk_c5 Append True vault_c5) ''vault/B.md'' =
     ''nothing here'' @ [NL, NL] @ ''## Backlinks'' @ [NL, NL] @ ''- [[A]]'' @ [NL, NL]"
  by code_simp

text \<open>
  C4, as the spec states it, fails: two files of the same title that link to
  \<open>B\<close> give two entries of that title in the section written to \<open>B.md\<close>.
\<close>

theorem same_title_listed_twice:
  "text_after (main remdups (\<lambda>t. None) walk_c4 Append False vault_c4) ''vault/B.md'' =
     ''text'' @ [NL, NL] @ ''## Backlinks'' @ [NL, NL] @ ''- [[X]]'' @ [NL] @ ''- [[X]]'' @ [NL, NL]"
  by code_simp

section \<open>A link to a title is a reference to its file\<close>

lemma refers_to_link:
  assumes "distinct (map extract_note_title markdown_files)"
    and "d2 \<in> set markdown_files"
    and "contents v d1 = Some c1"
    and "extract_note_title d2 \<in> set (parse_links c1)"
  shows "refers_to v (map extract_note_title markdown_files) (file_title_map markdown_files) d2 d1"
proof -
  from assms(4) have "extract_note_title d2 \<in>
      set (reference_titles (map extract_note_title markdown_files) c1)"
    by (simp add: reference_titles_def)
  moreover have "file_title_map markdown_files (extract_note_title d2) = Some d2"
    by (rule file_title_map_distinct[OF assms(1) assms(2)])
  ultimately show ?thesis unfolding refers_to_def assms(3) option.case by (rule bexI[rotated])
qed

section \<open>The rendered section is one block\<close>

lemma render_section_foldl:
  "foldl (\<lambda>new_section (source_title, source_path).
            new_section @ ''- [['' @ source_title @ '']]'' @ [NL]) acc references
   = acc @ entry_lines references"
proof (induction references arbitrary: acc)
  case Nil
  then show ?case by (simp add: entry_lines_def)
next
  case (Cons r rs)
  obtain t p where r: "r = (t, p)" by (cases r)
  show ?case unfolding r foldl_Cons prod.case Cons.IH
    by (simp add: entry_lines_def entry_line_def entry_body_def)
qed

lemma render_section_lines:
  "render_section references = heading @ entry_lines references @ [NL]"
  unfolding render_section_def render_section_foldl by simp

lemma take2_head: "c \<noteq> a \<Longrightarrow> take 2 (c # xs) \<noteq> [a, b]"
  by (simp add: numeral_2_eq_2)

lemma take2_second: "d \<noteq> b \<Longrightarrow> take 2 (c # d # xs) \<noteq> [a, b]"
  by (simp add: numeral_2_eq_2)

lemma block_end_step:
  "take 2 (c # cs) \<noteq> [NL, NL] \<Longrightarrow> c # cs \<noteq> [NL] \<Longrightarrow>
   block_end (c # cs) = (c # fst (block_end cs), snd (block_end cs))"
  by (simp only: block_end.simps if_False split_beta)

lemma block_end_no_NL:
  "NL \<notin> set xs \<Longrightarrow> block_end (xs @ s) = (xs @ fst (block_end s), snd (block_end s))"
proof (induction xs)
  case Nil
  then show ?case by simp
next
  case (Cons c cs)
  then have c: "c \<noteq> NL" and cs: "NL \<notin> set cs" by auto
  have a: "take 2 (c # (cs @ s)) \<noteq> [NL, NL]" by (rule take2_head[OF c])
  from c have b: "c # (cs @ s) \<noteq> [NL]" by simp
  show ?case unfolding append_Cons block_end_step[OF a b] Cons.IH[OF cs] by simp
qed

lemma block_end_blank: "block_end (NL # NL # s) = ([NL, NL], s)"
  by (simp add: numeral_2_eq_2)

lemma block_end_NL_other:
  assumes "c \<noteq> NL"
  shows "block_end (NL # c # s) = (NL # fst (block_end (c # s)), snd (block_end (c # s)))"
proof -
  have a: "take 2 (NL # c # s) \<noteq> [NL, NL]" by (rule take2_second[OF assms])
  have b: "NL # c # s \<noteq> [NL]" by simp
  show ?thesis by (rule block_end_step[OF a b])
qed


lemma entry_body_no_NL: "NL \<notin> set (fst r) \<Longrightarrow> NL \<notin> set (entry_body r)"
  by (simp add: entry_body_def)

lemma entry_body_hd: "entry_body r = CHR ''-'' # tl (entry_body r)"
  by (simp add: entry_body_def)

lemma entry_lines_Cons: "entry_lines (r # rs) = entry_line r @ entry_lines rs"
  by (simp add: entry_lines_def)

lemma block_end_entry_line:
  assumes "NL \<notin> set (fst r)"
  shows "block_end (entry_line r @ s) =
    (entry_body r @ fst (block_end (NL # s)), snd (block_end (NL # s)))"
proof -
  have "entry_line r @ s = entry_body r @ (NL # s)" unfolding entry_line_def by simp
  then show ?thesis using block_end_no_NL[OF entry_body_no_NL[OF assms], of "NL # s"]
    by (simp only:)
qed

lemma block_end_entry_lines:
  assumes "references \<noteq> []" and "\<forall>r \<in> set references. NL \<notin> set (fst r)"
  shows "block_end (entry_lines references @ NL # rest) = (entry_lines references @ [NL], rest)"
  using assms
proof (induction references rule: list_nonempty_induct)
  case (single r)
  then have n: "NL \<notin> set (fst r)" by simp
  have "block_end (entry_line r @ NL # rest) = (entry_body r @ [NL, NL], rest)"
    by (simp only: block_end_entry_line[OF n] block_end_blank fst_conv snd_conv)
  also have "entry_body r @ [NL, NL] = entry_line r @ [NL]" by (simp add: entry_line_def)
  finally show ?case by (simp add: entry_lines_def)
next
  case (cons r rs)
  then have n: "NL \<notin> set (fst r)" and ns: "\<forall>r \<in> set rs. NL \<notin> set (fst r)" by simp_all
  note IH = cons.IH[OF ns]
  obtain r' rs' where rs: "rs = r' # rs'" using cons.hyps by (cases rs) auto
  have "entry_lines rs @ NL # rest = entry_body r' @ (NL # entry_lines rs' @ NL # rest)"
    unfolding rs entry_lines_Cons entry_line_def by simp
  also have "\<dots> = CHR ''-'' # (tl (entry_body r') @ (NL # entry_lines rs' @ NL # rest))"
    using entry_body_hd[of r'] by (metis append_Cons)
  finally obtain x where hd: "entry_lines rs @ NL # rest = CHR ''-'' # x" by blast
  have dash: "CHR ''-'' \<noteq> NL" by simp
  have step: "block_end (NL # entry_lines rs @ NL # rest) = (NL # entry_lines rs @ [NL], rest)"
    using block_end_NL_other[OF dash, of x] IH unfolding hd[symmetric] by simp
  have "block_end (entry_line r @ (entry_lines rs @ NL # rest)) =
      (entry_body r @ (NL # entry_lines rs @ [NL]), rest)"
    by (simp only: block_end_entry_line[OF n] step fst_conv snd_conv)
  also have "entry_body r @ (NL # entry_lines rs @ [NL]) = entry_line r @ entry_lines rs @ [NL]"
    by (simp add: entry_line_def)
  finally show ?case unfolding entry_lines_Cons by simp
qed

lemma section_at_heading:
  "section_at (heading @ s) = Some (heading @ fst (block_end s), snd (block_end s))"
  by (simp add: section_at_def split_beta)

lemma section_at_render_section:
  assumes "references \<noteq> []" and "\<forall>r \<in> set references. NL \<notin> set (fst r)"
  shows "section_at (render_section references @ rest) = Some (render_section references, rest)"
proof -
  have "render_section references @ rest = heading @ (entry_lines references @ NL # rest)"
    unfolding render_section_lines by simp
  then show ?thesis
    unfolding render_section_lines
    using section_at_heading[of "entry_lines references @ NL # rest"]
      block_end_entry_lines[OF assms, of rest]
    by simp
qed

section \<open>Substitution of the section pattern\<close>

lemma take_eq_length: "take (length h) m = h \<Longrightarrow> length h \<le> length m"
proof -
  assume "take (length h) m = h"
  then have "length (take (length h) m) = length h" by simp
  then show ?thesis by simp
qed

lemma heading_Cons: "heading = CHR ''#'' # tl heading"
  by (simp add: heading_def)

lemma block_end_append: "block_end s = (m, r) \<Longrightarrow> s = m @ r"
proof (induction s arbitrary: m r)
  case Nil
  then show ?case by simp
next
  case (Cons c cs)
  show ?case
  proof (cases "take 2 (c # cs) = [NL, NL]")
    case True
    with Cons.prems have "m = [NL, NL]" and "r = drop 2 (c # cs)" by simp_all
    with True show ?thesis by (metis append_take_drop_id)
  next
    case False
    note nb = this
    show ?thesis
    proof (cases "c # cs = [NL]")
      case True
      with nb Cons.prems show ?thesis by simp
    next
      case False
      from Cons.prems have "m = c # fst (block_end cs)" and r: "r = snd (block_end cs)"
        unfolding block_end_step[OF nb False] by simp_all
      moreover have "cs = fst (block_end cs) @ snd (block_end cs)"
        by (rule Cons.IH[OF prod.collapse[symmetric]])
      ultimately show ?thesis by simp
    qed
  qed
qed

lemma section_at_None: "section_at s = None \<longleftrightarrow> take (length heading) s \<noteq> heading"
  by (simp add: section_at_def split_beta)

lemma section_at_Some:
  assumes "section_at s = Some (m, r)"
  shows "s = m @ r \<and> take (length heading) m = heading"
proof -
  from assms have h: "take (length heading) s = heading"
    by (simp add: section_at_def split: if_splits)
  with assms have m: "m = heading @ fst (block_end (drop (length heading) s))"
    and r: "r = snd (block_end (drop (length heading) s))"
    by (simp_all add: section_at_def split_beta)
  have "drop (length heading) s = fst (block_end (drop (length heading) s)) @ r"
    unfolding r by (rule block_end_append) simp
  with h m have "s = m @ r" by (metis append.assoc append_take_drop_id)
  moreover have "take (length heading) m = heading"
    by (subst m) simp
  ultimately show ?thesis by (rule conjI)
qed

lemma re_sub_section_heading:
  "re_sub_section repl (heading @ s) =
     repl (heading @ fst (block_end s)) @ re_sub_section repl (snd (block_end s))"
proof -
  have "heading @ s = CHR ''#'' # (tl heading @ s)" using heading_Cons by (metis append_Cons)
  then have "re_sub_section repl (heading @ s) =
      (case section_at (heading @ s) of
         Some (m, r) \<Rightarrow> repl m @ re_sub_section repl r
       | None \<Rightarrow> CHR ''#'' # re_sub_section repl (tl heading @ s))"
    by (simp only: re_sub_section.simps)
  then show ?thesis unfolding section_at_heading by simp
qed

lemma re_sub_section_skip:
  "section_at (c # cs) = None \<Longrightarrow> re_sub_section repl (c # cs) = c # re_sub_section repl cs"
  by simp

lemma re_sub_section_match:
  "section_at (c # cs) = Some (m, r) \<Longrightarrow>
   re_sub_section repl (c # cs) = repl m @ re_sub_section repl r"
  by simp

text \<open>Substitution keeps the first characters of a text, as many as the heading has.\<close>

lemma re_sub_section_take:
  assumes "take (length heading) new = heading"
  shows "n \<le> length heading \<Longrightarrow> take n (re_sub_section (\<lambda>m. new) s) = take n s"
proof (induction "length s" arbitrary: s n rule: less_induct)
  case less
  show ?case
  proof (cases s)
    case Nil
    then show ?thesis by simp
  next
    case (Cons c cs)
    show ?thesis
    proof (cases "section_at (c # cs)")
      case None
      show ?thesis
      proof (cases n)
        case 0
        then show ?thesis by simp
      next
        case (Suc k)
        with less.prems have k: "k \<le> length heading" by simp
        have "length cs < length s" unfolding Cons by simp
        from less.hyps[OF this k] show ?thesis
          unfolding Cons re_sub_section_skip[OF None] Suc by simp
      qed
    next
      case (Some mr)
      obtain m r where mr: "mr = (m, r)" by (cases mr)
      from section_at_Some[OF Some[unfolded mr]]
      have s: "c # cs = m @ r" and hm: "take (length heading) m = heading" by simp_all
      from hm have lm: "length heading \<le> length m" by (rule take_eq_length)
      from assms have ln: "length heading \<le> length new" by (rule take_eq_length)
      have "take n (new @ re_sub_section (\<lambda>m. new) r) = take n new"
        using ln less.prems by simp
      also have "\<dots> = take n heading" using assms less.prems by (metis min.absorb1 take_take)
      also have "\<dots> = take n m" using hm less.prems by (metis min.absorb1 take_take)
      also have "\<dots> = take n (c # cs)" unfolding s using lm less.prems by simp
      finally show ?thesis unfolding Cons re_sub_section_match[OF Some[unfolded mr]] .
    qed
  qed
qed

text \<open>
  A replacement that is itself one whole match: substituting twice gives what
  substituting once gives.
\<close>

lemma re_sub_section_idem:
  assumes "\<And>x. section_at (new @ x) = Some (new, x)"
  shows "re_sub_section (\<lambda>m. new) (re_sub_section (\<lambda>m. new) s) = re_sub_section (\<lambda>m. new) s"
proof -
  from assms[of "[]"] have hn: "take (length heading) new = heading"
    using section_at_Some by fastforce
  then have "heading = take (length heading) new" by simp
  then obtain n0 ns where new: "new = n0 # ns"
    using heading_Cons by (cases new) auto
  show ?thesis
  proof (induction "length s" arbitrary: s rule: less_induct)
    case less
    show ?case
    proof (cases s)
      case Nil
      then show ?thesis by simp
    next
      case (Cons c cs)
      show ?thesis
      proof (cases "section_at (c # cs)")
        case None
        have t: "take (length heading) (c # re_sub_section (\<lambda>m. new) cs) = take (length heading) (c # cs)"
        proof -
          obtain k where k: "length heading = Suc k" using heading_Cons by (metis length_Cons)
          then have "k \<le> length heading" by simp
          from re_sub_section_take[OF hn this, of cs] show ?thesis unfolding k by simp
        qed
        from None have n': "section_at (c # re_sub_section (\<lambda>m. new) cs) = None"
          unfolding section_at_None t .
        have "length cs < length s" unfolding Cons by simp
        from less.hyps[OF this] show ?thesis
          unfolding Cons re_sub_section_skip[OF None] re_sub_section_skip[OF n'] by simp
      next
        case (Some mr)
        obtain m r where mr: "mr = (m, r)" by (cases mr)
        note S = Some[unfolded mr]
        from section_at_Some[OF S] have s: "c # cs = m @ r"
          and hm: "take (length heading) m = heading" by simp_all
        from section_at_length[OF S] have "length r < length s" unfolding Cons .
        from less.hyps[OF this]
        have IH: "re_sub_section (\<lambda>m. new) (re_sub_section (\<lambda>m. new) r) = re_sub_section (\<lambda>m. new) r" .
        have "re_sub_section (\<lambda>m. new) (new @ re_sub_section (\<lambda>m. new) r) =
            new @ re_sub_section (\<lambda>m. new) (re_sub_section (\<lambda>m. new) r)"
          using re_sub_section_match[of n0 "ns @ re_sub_section (\<lambda>m. new) r" new
              "re_sub_section (\<lambda>m. new) r" "\<lambda>m. new"]
            assms[of "re_sub_section (\<lambda>m. new) r"] unfolding new by simp
        then show ?thesis unfolding Cons re_sub_section_match[OF S] IH .
      qed
    qed
  qed
qed

section \<open>Replace mode: every block is replaced\<close>

lemma existing_section_append: "existing_section (pre @ heading @ x)"
proof (induction pre)
  case Nil
  have "heading @ x = CHR ''#'' # (tl heading @ x)" using heading_Cons by (metis append_Cons)
  moreover have "section_at (heading @ x) \<noteq> None" unfolding section_at_heading by simp
  ultimately show ?case by (metis append_Nil existing_section.simps(2))
next
  case (Cons c cs)
  then show ?case by simp
qed

lemma take2_append: "2 \<le> length xs \<Longrightarrow> take 2 (xs @ ys) = take 2 xs"
  by simp

lemma not_sublist_Cons: "\<not> sublist ys (x # xs) \<Longrightarrow> \<not> sublist ys xs"
  by (auto simp: sublist_Cons_right)

lemma not_sublist_prefix: "\<not> sublist ys xs \<Longrightarrow> \<not> prefix ys xs"
  by (auto simp: sublist_def prefix_def)

lemma block_end_to_blank:
  "\<not> sublist [NL, NL] (body @ [NL]) \<Longrightarrow>
   block_end (body @ NL # NL # rest) = (body @ [NL, NL], rest)"
proof (induction body)
  case Nil
  show ?case unfolding append_Nil by (rule block_end_blank)
next
  case (Cons c cs)
  from Cons.prems have np: "\<not> prefix [NL, NL] ((c # cs) @ [NL])" by (rule not_sublist_prefix)
  have "take 2 ((c # cs) @ NL # NL # rest) = take 2 (((c # cs) @ [NL]) @ (NL # rest))" by simp
  also have "\<dots> = take 2 ((c # cs) @ [NL])" by (rule take2_append) simp
  finally have a: "take 2 (c # (cs @ NL # NL # rest)) \<noteq> [NL, NL]"
    using np unfolding prefix_take2 by simp
  have b: "c # (cs @ NL # NL # rest) \<noteq> [NL]" by simp
  from Cons.prems have "\<not> sublist [NL, NL] (cs @ [NL])"
    unfolding append_Cons by (rule not_sublist_Cons)
  from Cons.IH[OF this] show ?case unfolding append_Cons block_end_step[OF a b] by simp
qed

lemma block_end_to_end:
  "\<not> sublist [NL, NL] s \<Longrightarrow>
   block_end s = (if s \<noteq> [] \<and> last s = NL then (butlast s, [NL]) else (s, []))"
proof (induction s)
  case Nil
  then show ?case by simp
next
  case (Cons c cs)
  from Cons.prems have "\<not> prefix [NL, NL] (c # cs)" by (rule not_sublist_prefix)
  then have a: "take 2 (c # cs) \<noteq> [NL, NL]" unfolding prefix_take2 .
  have IH: "block_end cs =
      (if cs \<noteq> [] \<and> last cs = NL then (butlast cs, [NL]) else (cs, []))"
    by (rule Cons.IH[OF not_sublist_Cons[OF Cons.prems]])
  show ?case
  proof (cases "c # cs = [NL]")
    case True
    then show ?thesis by simp
  next
    case False
    show ?thesis
    proof (cases "cs = []")
      case True
      with False have "c \<noteq> NL" by simp
      with True show ?thesis unfolding block_end_step[OF a False] by simp
    next
      case ne: False
      then show ?thesis unfolding block_end_step[OF a False] IH by simp
    qed
  qed
qed

lemma take_append_le: "n \<le> length a \<Longrightarrow> take n (a @ b) = take n a"
  by simp

text \<open>The scan passes a text in which the heading does not start.\<close>

lemma re_sub_section_prefix:
  "\<not> sublist heading (pre @ butlast heading) \<Longrightarrow>
   re_sub_section repl (pre @ heading @ x) = pre @ re_sub_section repl (heading @ x)"
proof (induction pre)
  case Nil
  then show ?case by simp
next
  case (Cons c cs)
  have len: "length heading \<le> length ((c # cs) @ butlast heading)" by simp
  have "take (length heading) ((c # cs) @ heading @ x) =
      take (length heading) (((c # cs) @ butlast heading) @ ([last heading] @ x))"
    using heading_Cons by (metis append.assoc append_butlast_last_id list.distinct(1))
  also have "\<dots> = take (length heading) ((c # cs) @ butlast heading)"
    by (rule take_append_le[OF len])
  finally have t: "take (length heading) ((c # cs) @ heading @ x) =
      take (length heading) ((c # cs) @ butlast heading)" .
  have "take (length heading) ((c # cs) @ heading @ x) \<noteq> heading"
  proof
    assume "take (length heading) ((c # cs) @ heading @ x) = heading"
    with t have "take (length heading) ((c # cs) @ butlast heading) = heading" by simp
    then have "prefix heading ((c # cs) @ butlast heading)" by (metis take_is_prefix)
    with Cons.prems show False using not_sublist_prefix by blast
  qed
  then have none: "section_at (c # (cs @ heading @ x)) = None"
    unfolding section_at_None by simp
  from Cons.prems have "\<not> sublist heading (cs @ butlast heading)"
    unfolding append_Cons by (rule not_sublist_Cons)
  from Cons.IH[OF this] show ?case
    unfolding append_Cons re_sub_section_skip[OF none] by simp
qed


lemma render_section_no_BSL:
  assumes "\<forall>r \<in> set references. BSL \<notin> set (fst r)"
  shows "BSL \<notin> set (render_section references)"
proof -
  have h: "BSL \<notin> set heading" by (simp add: heading_def)
  have e: "BSL \<notin> set (entry_line r)" if "r \<in> set references" for r
    using assms that by (simp add: entry_line_def entry_body_def)
  then have "BSL \<notin> set (entry_lines references)" by (auto simp: entry_lines_def)
  with h show ?thesis unfolding render_section_lines by simp
qed

lemma re_sub_literal:
  "BSL \<notin> set new \<Longrightarrow> re_sub tc new content = Inr (re_sub_section (\<lambda>m. new) content)"
  by (simp add: re_sub_def)

lemma re_sub_section_no_heading:
  "\<not> sublist heading s \<Longrightarrow> re_sub_section repl s = s"
proof (induction s)
  case Nil
  then show ?case by simp
next
  case (Cons c cs)
  have "take (length heading) (c # cs) \<noteq> heading"
  proof
    assume "take (length heading) (c # cs) = heading"
    then have "prefix heading (c # cs)" by (metis take_is_prefix)
    with Cons.prems show False using not_sublist_prefix by blast
  qed
  then have none: "section_at (c # cs) = None" unfolding section_at_None .
  from Cons.IH[OF not_sublist_Cons[OF Cons.prems]] show ?case
    unfolding re_sub_section_skip[OF none] by simp
qed

lemma re_sub_section_blank:
  assumes "\<not> sublist heading (pre @ butlast heading)"
    and "\<not> sublist [NL, NL] (body @ [NL])"
  shows "re_sub_section (\<lambda>m. new) (pre @ heading @ body @ [NL, NL] @ rest) =
    pre @ new @ re_sub_section (\<lambda>m. new) rest"
proof -
  have b: "block_end (body @ NL # NL # rest) = (body @ [NL, NL], rest)"
    by (rule block_end_to_blank[OF assms(2)])
  have "re_sub_section (\<lambda>m. new) (pre @ heading @ (body @ NL # NL # rest)) =
      pre @ re_sub_section (\<lambda>m. new) (heading @ (body @ NL # NL # rest))"
    by (rule re_sub_section_prefix[OF assms(1)])
  also have "\<dots> = pre @ new @ re_sub_section (\<lambda>m. new) rest"
    unfolding re_sub_section_heading b by simp
  finally show ?thesis by simp
qed

lemma re_sub_section_end:
  assumes "\<not> sublist heading (pre @ butlast heading)"
    and "\<not> sublist [NL, NL] tail"
  shows "re_sub_section (\<lambda>m. new) (pre @ heading @ tail) =
    pre @ new @ (if tail \<noteq> [] \<and> last tail = NL then [NL] else [])"
proof -
  have nl: "re_sub_section (\<lambda>m. new) [NL] = [NL]" by (simp add: section_at_def heading_def)
  have "re_sub_section (\<lambda>m. new) (pre @ heading @ tail) =
      pre @ re_sub_section (\<lambda>m. new) (heading @ tail)"
    by (rule re_sub_section_prefix[OF assms(1)])
  also have "\<dots> = pre @ new @ (if tail \<noteq> [] \<and> last tail = NL then [NL] else [])"
    unfolding re_sub_section_heading block_end_to_end[OF assms(2)] using nl by simp
  finally show ?thesis .
qed

lemma update_file_replace:
  assumes "references \<noteq> []" and "contents v target_file = Some content"
    and "existing_section content"
    and "re_sub tc (render_section references) content = Inr content'"
  shows "update_file tc Replace (target_file, references) v = open_write target_file content' v"
  using assms by (simp add: update_file_def Let_def)

text \<open>
  C2, amended: in replace mode, for a file that can be read, whose text has a
  Backlinks section, and references whose titles have no backslash, the round
  of the loop writes the text in which the substitution has replaced every
  block, when the file can be written, and raises otherwise. The substitution
  is told by three equations. A text in which the heading does not stand is
  left as it is. In a text whose first heading stands after \<open>pre\<close> and is
  followed by \<open>body\<close>, the first blank line and \<open>rest\<close>, the block from the
  heading through the blank line becomes the rendered section, and \<open>rest\<close> is
  rewritten by the same substitution: every later block is replaced as well.
  In a text whose first heading is followed by \<open>tail\<close> with no blank line, the
  block reaches the end of the text; a line break that ends the text is not
  part of it and stays.
\<close>

theorem replace_rewrites_every_block:
  assumes "references \<noteq> []" and "\<forall>r \<in> set references. BSL \<notin> set (fst r)"
    and "contents v target_file = Some content" and "existing_section content"
  shows "update_file tc Replace (target_file, references) v =
      (if writable v target_file
       then Inr (write_file target_file
              (re_sub_section (\<lambda>m. render_section references) content) v)
       else Inl IOError) \<and>
    (\<not> sublist heading s \<longrightarrow> re_sub_section (\<lambda>m. render_section references) s = s) \<and>
    (\<not> sublist heading (pre @ butlast heading) \<and> \<not> sublist [NL, NL] (body @ [NL]) \<longrightarrow>
       re_sub_section (\<lambda>m. render_section references) (pre @ heading @ body @ [NL, NL] @ rest) =
         pre @ render_section references @
           re_sub_section (\<lambda>m. render_section references) rest) \<and>
    (\<not> sublist heading (pre @ butlast heading) \<and> \<not> sublist [NL, NL] tail \<longrightarrow>
       re_sub_section (\<lambda>m. render_section references) (pre @ heading @ tail) =
         pre @ render_section references @ (if tail \<noteq> [] \<and> last tail = NL then [NL] else []))"
proof -
  let ?new = "render_section references"
  have "re_sub tc ?new content = Inr (re_sub_section (\<lambda>m. ?new) content)"
    by (rule re_sub_literal[OF render_section_no_BSL[OF assms(2)]])
  from update_file_replace[OF assms(1) assms(3) assms(4) this]
  have a: "update_file tc Replace (target_file, references) v =
      (if writable v target_file
       then Inr (write_file target_file (re_sub_section (\<lambda>m. ?new) content) v)
       else Inl IOError)"
    unfolding open_write_def .
  have b: "\<not> sublist heading s \<longrightarrow> re_sub_section (\<lambda>m. ?new) s = s"
    by (rule impI) (rule re_sub_section_no_heading)
  have c: "\<not> sublist heading (pre @ butlast heading) \<and> \<not> sublist [NL, NL] (body @ [NL]) \<longrightarrow>
       re_sub_section (\<lambda>m. ?new) (pre @ heading @ body @ [NL, NL] @ rest) =
         pre @ ?new @ re_sub_section (\<lambda>m. ?new) rest"
  proof (rule impI)
    assume h: "\<not> sublist heading (pre @ butlast heading) \<and> \<not> sublist [NL, NL] (body @ [NL])"
    show "re_sub_section (\<lambda>m. ?new) (pre @ heading @ body @ [NL, NL] @ rest) =
         pre @ ?new @ re_sub_section (\<lambda>m. ?new) rest"
      by (rule re_sub_section_blank[OF conjunct1[OF h] conjunct2[OF h]])
  qed
  have d: "\<not> sublist heading (pre @ butlast heading) \<and> \<not> sublist [NL, NL] tail \<longrightarrow>
       re_sub_section (\<lambda>m. ?new) (pre @ heading @ tail) =
         pre @ ?new @ (if tail \<noteq> [] \<and> last tail = NL then [NL] else [])"
  proof (rule impI)
    assume h: "\<not> sublist heading (pre @ butlast heading) \<and> \<not> sublist [NL, NL] tail"
    show "re_sub_section (\<lambda>m. ?new) (pre @ heading @ tail) =
         pre @ ?new @ (if tail \<noteq> [] \<and> last tail = NL then [NL] else [])"
      by (rule re_sub_section_end[OF conjunct1[OF h] conjunct2[OF h]])
  qed
  show ?thesis by (rule conjI[OF a conjI[OF b conjI[OF c d]]])
qed

text \<open>
  C2, as the spec states it, fails: with two blocks in \<open>B.md\<close>, a run in
  replace mode replaces both; the entry of the later block is gone.
\<close>

theorem later_block_replaced_too:
  "sublist ''- [[Older]]'' text_c2 \<and>
   text_after (main remdups (\<lambda>t. None) walk_c2 Replace False vault_c2) ''vault/B.md'' =
     ''intro'' @ [NL, NL] @ ''## Backlinks'' @ [NL, NL] @ ''- [[A]]'' @ [NL, NL] @
     ''middle'' @ [NL, NL] @ ''## Backlinks'' @ [NL, NL] @ ''- [[A]]'' @ [NL, NL] \<and>
   \<not> sublist ''- [[Older]]''
     (text_after (main remdups (\<lambda>t. None) walk_c2 Replace False vault_c2) ''vault/B.md'')"
  by code_simp

theorem replace_rewrites_every_block_witness:
  "contents vault_c2 ''vault/B.md'' = Some text_c2 \<and> existing_section text_c2 \<and>
   writable vault_c2 ''vault/B.md'' \<and>
   update_file (\<lambda>t. None) Replace (''vault/B.md'', [(''A'', ''vault/A.md'')]) vault_c2 =
     (if writable vault_c2 ''vault/B.md''
      then Inr (write_file ''vault/B.md''
             (re_sub_section (\<lambda>m. render_section [(''A'', ''vault/A.md'')]) text_c2) vault_c2)
      else Inl IOError) \<and>
   \<not> sublist heading ''no section here'' \<and>
   re_sub_section (\<lambda>m. render_section [(''A'', ''vault/A.md'')]) ''no section here'' =
     ''no section here'' \<and>
   \<not> sublist heading ((''intro'' @ [NL, NL]) @ butlast heading) \<and>
   \<not> sublist [NL, NL] (''- [[Old]]'' @ [NL]) \<and>
   text_c2 = (''intro'' @ [NL, NL]) @ heading @ ''- [[Old]]'' @ [NL, NL] @ rest_c2 \<and>
   re_sub_section (\<lambda>m. render_section [(''A'', ''vault/A.md'')])
       ((''intro'' @ [NL, NL]) @ heading @ ''- [[Old]]'' @ [NL, NL] @ rest_c2) =
     (''intro'' @ [NL, NL]) @ render_section [(''A'', ''vault/A.md'')] @
       re_sub_section (\<lambda>m. render_section [(''A'', ''vault/A.md'')]) rest_c2 \<and>
   re_sub_section (\<lambda>m. render_section [(''A'', ''vault/A.md'')]) rest_c2 =
     ''middle'' @ [NL, NL] @ render_section [(''A'', ''vault/A.md'')] \<and>
   \<not> sublist [NL, NL] tail_c2 \<and> tail_c2 \<noteq> [] \<and> last tail_c2 = NL \<and>
   re_sub_section (\<lambda>m. render_section [(''A'', ''vault/A.md'')])
       ((''intro'' @ [NL, NL]) @ heading @ tail_c2) =
     (''intro'' @ [NL, NL]) @ render_section [(''A'', ''vault/A.md'')] @
       (if tail_c2 \<noteq> [] \<and> last tail_c2 = NL then [NL] else [])"
proof -
  have h1: "[(''A'', ''vault/A.md'')] \<noteq> []" by simp
  have h2: "\<forall>r \<in> set [(''A'', ''vault/A.md'')]. BSL \<notin> set (fst r)" by code_simp
  have h3: "contents vault_c2 ''vault/B.md'' = Some text_c2" by code_simp
  have h4: "existing_section text_c2" by code_simp
  have h5: "writable vault_c2 ''vault/B.md''" by code_simp
  have h6: "\<not> sublist heading ''no section here''" by code_simp
  have h7: "\<not> sublist heading ((''intro'' @ [NL, NL]) @ butlast heading)" by code_simp
  have h8: "\<not> sublist [NL, NL] (''- [[Old]]'' @ [NL])" by code_simp
  have h9: "text_c2 = (''intro'' @ [NL, NL]) @ heading @ ''- [[Old]]'' @ [NL, NL] @ rest_c2"
    by code_simp
  have h10: "re_sub_section (\<lambda>m. render_section [(''A'', ''vault/A.md'')]) rest_c2 =
     ''middle'' @ [NL, NL] @ render_section [(''A'', ''vault/A.md'')]" by code_simp
  have h11: "\<not> sublist [NL, NL] tail_c2" by code_simp
  have h12: "tail_c2 \<noteq> []" by code_simp
  have h13: "last tail_c2 = NL" by code_simp
  note t = replace_rewrites_every_block[OF h1 h2 h3 h4, of "\<lambda>t. None"
      "''no section here''" "''intro'' @ [NL, NL]" "''- [[Old]]''" rest_c2 tail_c2]
  note t1 = t[THEN conjunct1]
  note t2 = t[THEN conjunct2, THEN conjunct1, THEN mp, OF h6]
  note t3 = t[THEN conjunct2, THEN conjunct2, THEN conjunct1, THEN mp, OF conjI[OF h7 h8]]
  note t4 = t[THEN conjunct2, THEN conjunct2, THEN conjunct2, THEN mp, OF conjI[OF h7 h11]]
  show ?thesis
    by (rule conjI[OF h3 conjI[OF h4 conjI[OF h5 conjI[OF t1 conjI[OF h6 conjI[OF t2
          conjI[OF h7 conjI[OF h8 conjI[OF h9 conjI[OF t3 conjI[OF h10 conjI[OF h11
          conjI[OF h12 conjI[OF h13 t4]]]]]]]]]]]]]])
qed

section \<open>The loop over the index: what a run leaves in the files\<close>

lemma final_Inr: "\<not> isl r \<Longrightarrow> r = Inr (final r)"
  by (cases r) auto

lemma contents_write_file: "contents (write_file p c u) = (contents u)(p \<mapsto> c)"
  by (simp add: write_file_def)

lemma writable_write_file: "writable (write_file p c u) = writable u"
  by (simp add: write_file_def)

lemma update_file_unreadable:
  "refs \<noteq> [] \<Longrightarrow> contents u p = None \<Longrightarrow> update_file tc mode (p, refs) u = Inl IOError"
  by (simp add: update_file_def)

lemma update_file_readable:
  assumes "refs \<noteq> []" and "\<forall>r \<in> set refs. BSL \<notin> set (fst r)"
    and "contents u p = Some c"
  shows "update_file tc mode (p, refs) u =
    (if existing_section c \<and> mode = Append then Inr u
     else open_write p (rewritten mode refs c) u)"
proof -
  have lit: "re_sub tc (render_section refs) c =
      Inr (re_sub_section (\<lambda>m. render_section refs) c)"
    by (rule re_sub_literal[OF render_section_no_BSL[OF assms(2)]])
  show ?thesis
  proof (cases mode)
    case Append
    with assms(1) assms(3) show ?thesis
      by (simp add: update_file_def Let_def rewritten_def)
  next
    case Replace
    with assms(1) assms(3) lit show ?thesis
      by (simp add: update_file_def Let_def rewritten_def)
  qed
qed

text \<open>What a round that returns has done.\<close>

lemma update_file_step:
  assumes "refs \<noteq> []" and "\<forall>r \<in> set refs. BSL \<notin> set (fst r)"
    and "update_file tc mode (p, refs) u = Inr u1"
  shows "\<exists>c. contents u p = Some c \<and> contents u1 = (contents u)(p \<mapsto> rewritten mode refs c) \<and>
    writable u1 = writable u \<and> (mode = Replace \<longrightarrow> writable u p)"
proof (cases "contents u p")
  case None
  with assms(3) show ?thesis unfolding update_file_unreadable[OF assms(1) None] by simp
next
  case (Some c)
  note step = assms(3)[unfolded update_file_readable[OF assms(1) assms(2) Some]]
  show ?thesis
  proof (cases "existing_section c \<and> mode = Append")
    case True
    with step have u1: "u1 = u" by simp
    from True have "rewritten mode refs c = c" by (simp add: rewritten_def)
    with Some have "contents u = (contents u)(p \<mapsto> rewritten mode refs c)"
      by (metis fun_upd_triv)
    with Some u1 True show ?thesis by simp
  next
    case False
    with step have ow: "open_write p (rewritten mode refs c) u = Inr u1" by simp
    then have w: "writable u p" unfolding open_write_def by (simp split: if_splits)
    with ow have u1: "u1 = write_file p (rewritten mode refs c) u"
      unfolding open_write_def by simp
    from Some w show ?thesis unfolding u1 contents_write_file writable_write_file by simp
  qed
qed

text \<open>A round returns when the file can be read and written.\<close>

lemma update_file_returns:
  assumes "refs \<noteq> []" and "\<forall>r \<in> set refs. BSL \<notin> set (fst r)"
    and "contents u p \<noteq> None" and "writable u p"
  shows "\<exists>u1. update_file tc mode (p, refs) u = Inr u1"
proof -
  from assms(3) obtain c where c: "contents u p = Some c" by auto
  show ?thesis
    unfolding update_file_readable[OF assms(1) assms(2) c] open_write_def
    using assms(4) by simp
qed

lemma update_files_Cons_Inr:
  "update_file tc mode item u = Inr u1 \<Longrightarrow>
   update_files_with_backlinks tc (item # items) mode u = update_files_with_backlinks tc items mode u1"
  by simp

lemma update_files_Cons_Inl:
  "update_file tc mode item u = Inl e \<Longrightarrow>
   update_files_with_backlinks tc (item # items) mode u = Inl (e, u)"
  by simp

lemma references_of_Cons:
  "references_of ((p, refs) # bl) q = (if q = p then refs else references_of bl q)"
  by (simp add: references_of_def)

lemma references_of_no_key: "p \<notin> set (map fst bl) \<Longrightarrow> references_of bl p = []"
proof -
  assume "p \<notin> set (map fst bl)"
  then have "map_of bl p = None" by (simp add: map_of_eq_None_iff)
  then show ?thesis by (simp add: references_of_def)
qed

lemma references_of_key:
  assumes "distinct (map fst bl)" and "\<forall>item \<in> set bl. snd item \<noteq> []"
  shows "p \<in> set (map fst bl) \<longleftrightarrow> references_of bl p \<noteq> []"
proof
  assume "p \<in> set (map fst bl)"
  then obtain refs where m: "(p, refs) \<in> set bl" by auto
  with assms(2) have "refs \<noteq> []" by auto
  with references_of_member[OF assms(1) m] show "references_of bl p \<noteq> []" by simp
next
  assume "references_of bl p \<noteq> []"
  then show "p \<in> set (map fst bl)" using references_of_no_key by blast
qed

text \<open>
  The loop over an index with each key once, no empty list of references and
  no backslash in a title: when it returns, every key could be read, every
  file has the text of its round, and the texts of the other files are as
  they were.
\<close>

lemma update_files_effect:
  assumes "distinct (map fst bl)"
    and "\<forall>item \<in> set bl. snd item \<noteq> [] \<and> (\<forall>r \<in> set (snd item). BSL \<notin> set (fst r))"
    and "update_files_with_backlinks tc bl mode u = Inr u'"
  shows "contents u' = rewritten_all mode bl (contents u) \<and> writable u' = writable u \<and>
    (\<forall>p \<in> set (map fst bl). contents u p \<noteq> None \<and> (mode = Replace \<longrightarrow> writable u p))"
  using assms
proof (induction bl arbitrary: u)
  case Nil
  then show ?case by (simp add: rewritten_all_def references_of_def)
next
  case (Cons item bl)
  obtain p refs where item: "item = (p, refs)" by (cases item)
  from Cons.prems(1) have np: "p \<notin> set (map fst bl)" and d: "distinct (map fst bl)"
    unfolding item by simp_all
  from Cons.prems(2) have ne: "refs \<noteq> []" and lit: "\<forall>r \<in> set refs. BSL \<notin> set (fst r)"
    and ok: "\<forall>item \<in> set bl. snd item \<noteq> [] \<and> (\<forall>r \<in> set (snd item). BSL \<notin> set (fst r))"
    unfolding item by simp_all
  obtain u1 where step: "update_file tc mode (p, refs) u = Inr u1"
  proof (cases "update_file tc mode (p, refs) u")
    case (Inl e)
    from Cons.prems(3) show ?thesis unfolding item update_files_Cons_Inl[OF Inl] by simp
  next
    case (Inr u1)
    then show ?thesis by (rule that)
  qed
  from update_file_step[OF ne lit step] obtain c where c: "contents u p = Some c"
    and c1: "contents u1 = (contents u)(p \<mapsto> rewritten mode refs c)"
    and w1: "writable u1 = writable u" and wp: "mode = Replace \<longrightarrow> writable u p" by blast
  from Cons.prems(3) have run: "update_files_with_backlinks tc bl mode u1 = Inr u'"
    unfolding item update_files_Cons_Inr[OF step] .
  from Cons.IH[OF d ok run] have c': "contents u' = rewritten_all mode bl (contents u1)"
    and w': "writable u' = writable u1"
    and rd: "\<forall>q \<in> set (map fst bl). contents u1 q \<noteq> None \<and> (mode = Replace \<longrightarrow> writable u1 q)"
    by simp_all
  note rp = references_of_no_key[OF np]
  have "rewritten_all mode bl (contents u1) q = rewritten_all mode ((p, refs) # bl) (contents u) q"
    for q
  proof (cases "q = p")
    case True
    then show ?thesis using rp ne c unfolding rewritten_all_def references_of_Cons c1 by simp
  next
    case False
    then show ?thesis unfolding rewritten_all_def references_of_Cons c1 by simp
  qed
  then have e: "contents u' = rewritten_all mode ((p, refs) # bl) (contents u)"
    unfolding c' by (rule ext)
  have k: "contents u q \<noteq> None \<and> (mode = Replace \<longrightarrow> writable u q)"
    if "q \<in> set (map fst ((p, refs) # bl))" for q
  proof (cases "q = p")
    case True
    with c wp show ?thesis by simp
  next
    case False
    with that have "q \<in> set (map fst bl)" by simp
    with rd have "contents u1 q \<noteq> None \<and> (mode = Replace \<longrightarrow> writable u1 q)" by blast
    with False show ?thesis unfolding c1 w1 by simp
  qed
  from e w' w1 k show ?case unfolding item by simp
qed

lemma update_files_returns:
  assumes "distinct (map fst bl)"
    and "\<forall>item \<in> set bl. snd item \<noteq> [] \<and> (\<forall>r \<in> set (snd item). BSL \<notin> set (fst r))"
    and "\<forall>p \<in> set (map fst bl). contents u p \<noteq> None \<and> writable u p"
  shows "\<exists>u'. update_files_with_backlinks tc bl mode u = Inr u'"
  using assms
proof (induction bl arbitrary: u)
  case Nil
  then show ?case by simp
next
  case (Cons item bl)
  obtain p refs where item: "item = (p, refs)" by (cases item)
  from Cons.prems(1) have d: "distinct (map fst bl)" unfolding item by simp
  from Cons.prems(2) have ne: "refs \<noteq> []" and lit: "\<forall>r \<in> set refs. BSL \<notin> set (fst r)"
    and ok: "\<forall>item \<in> set bl. snd item \<noteq> [] \<and> (\<forall>r \<in> set (snd item). BSL \<notin> set (fst r))"
    unfolding item by simp_all
  from Cons.prems(3) have rp: "contents u p \<noteq> None" and wp: "writable u p"
    unfolding item by simp_all
  from update_file_returns[OF ne lit rp wp] obtain u1
    where step: "update_file tc mode (p, refs) u = Inr u1" by blast
  from update_file_step[OF ne lit step] obtain c
    where c1: "contents u1 = (contents u)(p \<mapsto> rewritten mode refs c)"
    and w1: "writable u1 = writable u" by blast
  have "\<forall>q \<in> set (map fst bl). contents u1 q \<noteq> None \<and> writable u1 q"
    using Cons.prems(3) unfolding item c1 w1 by simp
  from Cons.IH[OF d ok this] show ?case unfolding item update_files_Cons_Inr[OF step] .
qed

text \<open>Every reference of an index built by a scan is a scanned file with its title.\<close>

lemma dict_append_sources:
  "\<forall>item \<in> set bl. \<forall>r \<in> set (snd item). P r \<Longrightarrow> P x \<Longrightarrow>
   \<forall>item \<in> set (dict_append bl k x). \<forall>r \<in> set (snd item). P r"
  by (induction bl k x rule: dict_append.induct) auto

lemma add_ref_sources:
  "\<forall>item \<in> set bl. \<forall>r \<in> set (snd item). P r \<Longrightarrow> P src \<Longrightarrow>
   \<forall>item \<in> set (add_ref ftm src bl ref). \<forall>r \<in> set (snd item). P r"
proof (cases "ftm ref")
  case None
  assume "\<forall>item \<in> set bl. \<forall>r \<in> set (snd item). P r"
  with None show ?thesis unfolding add_ref_def by simp
next
  case (Some target_file)
  assume "\<forall>item \<in> set bl. \<forall>r \<in> set (snd item). P r" and "P src"
  then have "\<forall>item \<in> set (dict_append bl target_file src). \<forall>r \<in> set (snd item). P r"
    by (rule dict_append_sources)
  with Some show ?thesis unfolding add_ref_def by simp
qed

lemma add_refs_sources:
  "\<forall>item \<in> set bl. \<forall>r \<in> set (snd item). P r \<Longrightarrow> P src \<Longrightarrow>
   \<forall>item \<in> set (add_refs ftm src refs bl). \<forall>r \<in> set (snd item). P r"
  unfolding add_refs_def
proof (induction refs arbitrary: bl)
  case Nil
  then show ?case by simp
next
  case (Cons r refs)
  have "\<forall>item \<in> set (add_ref ftm src bl r). \<forall>r \<in> set (snd item). P r"
    by (rule add_ref_sources[OF Cons.prems])
  from Cons.IH[OF this Cons.prems(2)] show ?case by simp
qed

lemma scan_files_sources:
  "scan_files set_order v note_titles ftm files bl = Inr bl' \<Longrightarrow>
   \<forall>item \<in> set bl. \<forall>r \<in> set (snd item). P r \<Longrightarrow>
   \<forall>f \<in> set files. P (extract_note_title f, f) \<Longrightarrow>
   \<forall>item \<in> set bl'. \<forall>r \<in> set (snd item). P r"
proof (induction files arbitrary: bl)
  case Nil
  then show ?case by simp
next
  case (Cons f files)
  show ?case
  proof (cases "contents v f")
    case None
    with Cons.prems(1) show ?thesis by (simp only: scan_files_Cons_None) simp
  next
    case (Some content)
    from Cons.prems(3) have pf: "P (extract_note_title f, f)"
      and pfs: "\<forall>f \<in> set files. P (extract_note_title f, f)" by simp_all
    from Cons.prems(1) show ?thesis unfolding scan_files_Cons_Some[OF Some]
      by (rule Cons.IH) (rule add_refs_sources[OF Cons.prems(2) pf], rule pfs)
  qed
qed

lemma generate_backlinks_sources:
  assumes "generate_backlinks set_order v markdown_files = Inr bl"
    and "\<forall>f \<in> set markdown_files. P (extract_note_title f)"
  shows "\<forall>item \<in> set bl. \<forall>r \<in> set (snd item). P (fst r)"
proof (rule scan_files_sources[OF assms(1)[unfolded generate_backlinks_def]])
  show "\<forall>item \<in> set ([]::backlinks). \<forall>r \<in> set (snd item). P (fst r)" by simp
next
  from assms(2) show "\<forall>f \<in> set markdown_files. P (fst (extract_note_title f, f))" by simp
qed

lemma generate_backlinks_items:
  assumes "generate_backlinks set_order v markdown_files = Inr bl"
    and "\<forall>f \<in> set markdown_files. P (extract_note_title f)"
  shows "\<forall>item \<in> set bl. snd item \<noteq> [] \<and> (\<forall>r \<in> set (snd item). P (fst r))"
proof
  fix item assume i: "item \<in> set bl"
  obtain k xs where kx: "item = (k, xs)" by (cases item)
  from generate_backlinks_nonempty[OF assms(1)] i have "xs \<noteq> []" unfolding kx by blast
  moreover from generate_backlinks_sources[OF assms] i have "\<forall>r \<in> set (snd item). P (fst r)"
    by (rule bspec)
  ultimately show "snd item \<noteq> [] \<and> (\<forall>r \<in> set (snd item). P (fst r))" unfolding kx by simp
qed

text \<open>What a run that returns leaves in the files.\<close>

lemma main_effect:
  assumes "\<forall>f \<in> set (find_markdown_files walk). BSL \<notin> set (extract_note_title f)"
    and "generate_backlinks set_order v (find_markdown_files walk) = Inr bl"
    and "main set_order tc walk update_mode text_refs v = Inr v'"
  shows "contents v' = rewritten_all update_mode bl (contents v) \<and> writable v' = writable v \<and>
    (\<forall>p \<in> set (map fst bl). contents v p \<noteq> None \<and> (update_mode = Replace \<longrightarrow> writable v p))"
  by (rule update_files_effect[OF generate_backlinks_distinct[OF assms(2)]
        generate_backlinks_items[OF assms(2), of "\<lambda>t. BSL \<notin> set t", OF assms(1)]
        assms(3)[unfolded main_Inr[OF assms(2)]]])

lemma main_returns_index:
  assumes "main set_order tc walk update_mode text_refs v = Inr v'"
  shows "\<exists>bl. generate_backlinks set_order v (find_markdown_files walk) = Inr bl"
proof (cases "generate_backlinks set_order v (find_markdown_files walk)")
  case (Inl e)
  from assms show ?thesis unfolding main_Inl[OF Inl] by simp
next
  case (Inr bl)
  then show ?thesis by blast
qed

lemma entry_lines_append: "entry_lines (xs @ ys) = entry_lines xs @ entry_lines ys"
  by (simp add: entry_lines_def)

lemma entry_lines_single: "entry_lines [r] = entry_body r @ [NL]"
  by (simp add: entry_lines_def entry_line_def)

section \<open>One entry for each referring file\<close>

text \<open>
  C4, amended: in a vault whose titles are pairwise distinct and have no
  backslash, when the link parser extracts the title of \<open>d2\<close> from the text of
  \<open>d1\<close>, however often, and the run returns, the index holds for \<open>d2\<close> its
  referring files in the order of the scan, one reference each; the reference
  of \<open>d1\<close> is one of them and no other has the title of \<open>d1\<close>; the section
  rendered for \<open>d2\<close> has the line of \<open>d1\<close> once, between the lines of the
  others; and the text of \<open>d2\<close> after the run is its text with every block
  replaced by that section (replace mode, a section present), its text as it
  was (append mode, a section present), or its text with that section at the
  end (no section present).
\<close>

theorem one_reference_per_source:
  assumes "iteration_order set_order"
    and "distinct (map extract_note_title (find_markdown_files walk))"
    and "\<forall>f \<in> set (find_markdown_files walk). BSL \<notin> set (extract_note_title f)"
    and "main set_order tc walk update_mode text_refs v = Inr v'"
    and "d1 \<in> set (find_markdown_files walk)" and "d2 \<in> set (find_markdown_files walk)"
    and "contents v d1 = Some c1" and "contents v d2 = Some c2"
    and "extract_note_title d2 \<in> set (parse_links c1)"
  shows "\<exists>bl before after.
    generate_backlinks set_order v (find_markdown_files walk) = Inr bl \<and>
    references_of bl d2 = map (\<lambda>f. (extract_note_title f, f))
      (filter (refers_to v (map extract_note_title (find_markdown_files walk))
         (file_title_map (find_markdown_files walk)) d2) (find_markdown_files walk)) \<and>
    references_of bl d2 = before @ [(extract_note_title d1, d1)] @ after \<and>
    extract_note_title d1 \<notin> set (map fst (before @ after)) \<and>
    render_section (references_of bl d2) =
      heading @ entry_lines before @
        (''- [['' @ extract_note_title d1 @ '']]'' @ [NL]) @ entry_lines after @ [NL] \<and>
    contents v' d2 = Some
      (if existing_section c2 \<and> update_mode = Replace
       then re_sub_section (\<lambda>m. render_section (references_of bl d2)) c2
       else if existing_section c2 \<and> update_mode = Append then c2
       else append_section c2 (render_section (references_of bl d2)))"
proof -
  let ?files = "find_markdown_files walk"
  let ?g = "\<lambda>f. (extract_note_title f, f)"
  define R where "R = refers_to v (map extract_note_title ?files) (file_title_map ?files) d2"
  from main_returns_index[OF assms(4)] obtain bl
    where bl: "generate_backlinks set_order v ?files = Inr bl" by blast
  have refs: "references_of bl d2 = map ?g (filter R ?files)"
    unfolding R_def by (rule generate_backlinks_references[OF assms(1) bl])
  have R1: "R d1"
    unfolding R_def by (rule refers_to_link[OF assms(2) assms(6) assms(7) assms(9)])
  from assms(5) obtain xs ys where split: "?files = xs @ d1 # ys"
    by (meson split_list)
  from assms(2) have nx: "extract_note_title d1 \<notin> set (map extract_note_title xs)"
    and ny: "extract_note_title d1 \<notin> set (map extract_note_title ys)"
    unfolding split by auto
  let ?before = "map ?g (filter R xs)" and ?after = "map ?g (filter R ys)"
  have sp: "references_of bl d2 = ?before @ [?g d1] @ ?after"
    unfolding refs split using R1 by simp
  have "set (map fst (?before @ ?after)) \<subseteq>
      set (map extract_note_title xs) \<union> set (map extract_note_title ys)" by auto
  with nx ny have once: "extract_note_title d1 \<notin> set (map fst (?before @ ?after))" by blast
  have "render_section (references_of bl d2) =
      heading @ entry_lines ?before @ (entry_body (?g d1) @ [NL]) @ entry_lines ?after @ [NL]"
    unfolding render_section_lines sp entry_lines_append entry_lines_single by simp
  then have rs: "render_section (references_of bl d2) =
      heading @ entry_lines ?before @
        (''- [['' @ extract_note_title d1 @ '']]'' @ [NL]) @ entry_lines ?after @ [NL]"
    unfolding entry_body_def fst_conv by (simp only: append_assoc)
  from sp have ne: "references_of bl d2 \<noteq> []" by simp
  from main_effect[OF assms(3) bl assms(4)]
  have "contents v' = rewritten_all update_mode bl (contents v)" by (rule conjunct1)
  then have "contents v' d2 = Some (rewritten update_mode (references_of bl d2) c2)"
    unfolding rewritten_all_def using ne assms(8) by simp
  then have tx: "contents v' d2 = Some
      (if existing_section c2 \<and> update_mode = Replace
       then re_sub_section (\<lambda>m. render_section (references_of bl d2)) c2
       else if existing_section c2 \<and> update_mode = Append then c2
       else append_section c2 (render_section (references_of bl d2)))"
    unfolding rewritten_def .
  show ?thesis
    by (rule exI[where x = bl], rule exI[where x = ?before], rule exI[where x = ?after])
      (rule conjI[OF bl conjI[OF refs[unfolded R_def] conjI[OF sp conjI[OF once conjI[OF rs tx]]]]])
qed

theorem one_reference_per_source_witness:
  "distinct (map extract_note_title (find_markdown_files walk_c5)) \<and>
   contents vault_c5 ''vault/A.md'' = Some ''see [[B]] and [[B]] again'' \<and>
   parse_links ''see [[B]] and [[B]] again'' = [''B'', ''B''] \<and>
   extract_note_title ''vault/B.md'' = ''B'' \<and>
   (\<exists>bl before after.
      generate_backlinks remdups vault_c5 (find_markdown_files walk_c5) = Inr bl \<and>
      references_of bl ''vault/B.md'' = map (\<lambda>f. (extract_note_title f, f))
        (filter (refers_to vault_c5 (map extract_note_title (find_markdown_files walk_c5))
           (file_title_map (find_markdown_files walk_c5)) ''vault/B.md'')
           (find_markdown_files walk_c5)) \<and>
      references_of bl ''vault/B.md'' =
        before @ [(extract_note_title ''vault/A.md'', ''vault/A.md'')] @ after \<and>
      extract_note_title ''vault/A.md'' \<notin> set (map fst (before @ after)) \<and>
      render_section (references_of bl ''vault/B.md'') =
        heading @ entry_lines before @
          (''- [['' @ extract_note_title ''vault/A.md'' @ '']]'' @ [NL]) @
          entry_lines after @ [NL] \<and>
      contents (final (main remdups (\<lambda>t. None) walk_c5 Append True vault_c5)) ''vault/B.md'' =
        Some (if existing_section ''nothing here'' \<and> Append = Replace
              then re_sub_section (\<lambda>m. render_section (references_of bl ''vault/B.md''))
                     ''nothing here''
              else if existing_section ''nothing here'' \<and> Append = Append then ''nothing here''
              else append_section ''nothing here''
                     (render_section (references_of bl ''vault/B.md'')))) \<and>
   text_after (main remdups (\<lambda>t. None) walk_c5 Append True vault_c5) ''vault/B.md'' =
     ''nothing here'' @ [NL, NL] @ ''## Backlinks'' @ [NL, NL] @ ''- [[A]]'' @ [NL, NL]"
proof -
  have h1: "iteration_order remdups" unfolding iteration_order_def by simp
  have h2: "distinct (map extract_note_title (find_markdown_files walk_c5))" by code_simp
  have h3: "\<forall>f \<in> set (find_markdown_files walk_c5). BSL \<notin> set (extract_note_title f)"
    by code_simp
  have "\<not> isl (main remdups (\<lambda>t. None) walk_c5 Append True vault_c5)" by code_simp
  then have h4: "main remdups (\<lambda>t. None) walk_c5 Append True vault_c5 =
      Inr (final (main remdups (\<lambda>t. None) walk_c5 Append True vault_c5))"
    by (rule final_Inr)
  have h5: "''vault/A.md'' \<in> set (find_markdown_files walk_c5)" by code_simp
  have h6: "''vault/B.md'' \<in> set (find_markdown_files walk_c5)" by code_simp
  have h7: "contents vault_c5 ''vault/A.md'' = Some ''see [[B]] and [[B]] again''" by code_simp
  have h8: "contents vault_c5 ''vault/B.md'' = Some ''nothing here''" by code_simp
  have h9: "extract_note_title ''vault/B.md'' \<in> set (parse_links ''see [[B]] and [[B]] again'')"
    by code_simp
  have p: "parse_links ''see [[B]] and [[B]] again'' = [''B'', ''B'']" by code_simp
  have q: "extract_note_title ''vault/B.md'' = ''B''" by code_simp
  have x: "text_after (main remdups (\<lambda>t. None) walk_c5 Append True vault_c5) ''vault/B.md'' =
     ''nothing here'' @ [NL, NL] @ ''## Backlinks'' @ [NL, NL] @ ''- [[A]]'' @ [NL, NL]"
    by code_simp
  note t = one_reference_per_source[OF h1 h2 h3 h4 h5 h6 h7 h8 h9]
  show ?thesis by (rule conjI[OF h2 conjI[OF h7 conjI[OF p conjI[OF q conjI[OF t x]]]]])
qed

section \<open>Replace mode: a run done again\<close>

lemma endswith_suffix: "endswith s t \<longleftrightarrow> suffix t s"
proof
  assume "endswith s t"
  then have "drop (length s - length t) s = t" unfolding endswith_def by simp
  then have "s = take (length s - length t) s @ t" by (metis append_take_drop_id)
  then show "suffix t s" unfolding suffix_def by blast
next
  assume "suffix t s"
  then obtain p where "s = p @ t" unfolding suffix_def by blast
  then show "endswith s t" unfolding endswith_def by simp
qed

lemma prefix_take_length: "prefix h s \<longleftrightarrow> take (length h) s = h"
proof
  assume "prefix h s"
  then show "take (length h) s = h" by (auto simp: prefix_def)
next
  assume "take (length h) s = h"
  then show "prefix h s" by (metis take_is_prefix)
qed

lemma existing_section_sublist: "existing_section c \<longleftrightarrow> sublist heading c"
proof (induction c)
  case Nil
  have "heading \<noteq> []" using heading_Cons by (metis list.distinct(1))
  then show ?case by simp
next
  case (Cons x xs)
  have "section_at (x # xs) \<noteq> None \<longleftrightarrow> prefix heading (x # xs)"
    unfolding section_at_None prefix_take_length by simp
  then show ?case unfolding existing_section.simps sublist_Cons_right Cons.IH by simp
qed

text \<open>A text with a section has one after the substitution.\<close>

lemma existing_section_re_sub:
  assumes "take (length heading) new = heading"
  shows "existing_section c \<Longrightarrow> existing_section (re_sub_section (\<lambda>m. new) c)"
proof (induction c)
  case Nil
  then show ?case by simp
next
  case (Cons x xs)
  show ?case
  proof (cases "section_at (x # xs)")
    case None
    with Cons.prems have "existing_section xs" by simp
    from Cons.IH[OF this] show ?thesis unfolding re_sub_section_skip[OF None] by simp
  next
    case (Some mr)
    obtain m r where mr: "mr = (m, r)" by (cases mr)
    from assms have "new = heading @ drop (length heading) new"
      by (metis append_take_drop_id)
    then obtain y where "new = heading @ y" by blast
    then have "new @ re_sub_section (\<lambda>m. new) r = [] @ heading @ (y @ re_sub_section (\<lambda>m. new) r)"
      by simp
    then have "existing_section (new @ re_sub_section (\<lambda>m. new) r)"
      by (simp only: existing_section_append)
    then show ?thesis unfolding re_sub_section_match[OF Some[unfolded mr]] .
  qed
qed

text \<open>The substitution on a text that starts with a replacement that is one whole match.\<close>

lemma re_sub_section_new:
  assumes "\<And>x. section_at (new @ x) = Some (new, x)"
  shows "re_sub_section (\<lambda>m. new) (new @ x) = new @ re_sub_section (\<lambda>m. new) x"
proof -
  from assms[of "[]"] have "take (length heading) new = heading"
    using section_at_Some by fastforce
  then have "heading = take (length heading) new" by simp
  then obtain n0 ns where new: "new = n0 # ns"
    using heading_Cons by (cases new) auto
  show ?thesis
    using re_sub_section_match[of n0 "ns @ x" new x "\<lambda>m. new"] assms[of x]
    unfolding new by simp
qed

text \<open>
  The heading does not overlap itself: an occurrence of the heading that
  reaches into a text put behind \<open>xs\<close> starts in \<open>xs\<close> with a part of the
  heading and goes on with the rest.
\<close>

lemma heading_crossing:
  assumes "sublist heading (xs @ s)" and "\<not> sublist heading xs"
    and "length s < length heading"
  shows "\<exists>k \<in> set [0 ..< length heading]. suffix (take k heading) xs \<and> prefix (drop k heading) s"
proof -
  from assms(3) have ns: "\<not> sublist heading s" using sublist_length_le by fastforce
  from assms(1) assms(2) ns obtain h1 h2 where h: "heading = h1 @ h2"
    and s1: "suffix h1 xs" and p2: "prefix h2 s"
    unfolding sublist_append by blast
  have "h2 \<noteq> []"
  proof
    assume "h2 = []"
    with h s1 have "suffix heading xs" by simp
    with assms(2) show False by (simp add: suffix_imp_sublist)
  qed
  then have "0 < length h2" by simp
  moreover have "length heading = length h1 + length h2"
    using arg_cong[OF h, of length] by simp
  ultimately have k: "length h1 < length heading" by linarith
  have t: "take (length h1) heading = h1" and d: "drop (length h1) heading = h2"
    unfolding h by simp_all
  show ?thesis
  proof (rule bexI[where x = "length h1"])
    show "suffix (take (length h1) heading) xs \<and> prefix (drop (length h1) heading) s"
      unfolding t d using s1 p2 by (rule conjI)
  next
    from k show "length h1 \<in> set [0 ..< length heading]" by simp
  qed
qed

lemma heading_no_border:
  "\<forall>k \<in> set [0 ..< length heading]. \<not> prefix (drop k heading) (butlast heading)"
  by code_simp

lemma heading_before_breaks:
  "\<forall>k \<in> set [0 ..< length heading].
     (prefix (drop k heading) [NL] \<longrightarrow> take k heading = ''## Backlinks'' @ [NL]) \<and>
     (prefix (drop k heading) [NL, NL] \<longrightarrow>
        take k heading = ''## Backlinks'' @ [NL] \<or> take k heading = ''## Backlinks'') \<and>
     \<not> prefix (drop k heading) []"
  by code_simp

lemma heading_length: "length heading = 14"
  by code_simp

lemma sublist_heading_butlast:
  assumes "sublist heading (xs @ butlast heading)"
  shows "sublist heading xs"
proof (rule ccontr)
  assume n: "\<not> sublist heading xs"
  have "length (butlast heading) < length heading" unfolding length_butlast heading_length by simp
  from heading_crossing[OF assms n this] heading_no_border show False by blast
qed

lemma append_section_first_block:
  assumes "\<not> bare_heading_at_end c" and "\<not> existing_section c"
  shows "\<exists>pre. append_section c new = pre @ new \<and> \<not> sublist heading (pre @ butlast heading)"
proof -
  define s where "s = (if \<not> endswith c [NL, NL]
      then (if \<not> endswith c [NL] then [NL, NL] else [NL]) else [])"
  have a: "append_section c new = (c @ s) @ new"
    unfolding append_section_def s_def by simp
  from assms have e1: "\<not> suffix ''## Backlinks'' c"
    and e2: "\<not> suffix (''## Backlinks'' @ [NL]) c"
    unfolding bare_heading_at_end_def endswith_suffix by blast+
  from assms(2) have nc: "\<not> sublist heading c" unfolding existing_section_sublist .
  have ls: "length s < length heading" unfolding s_def heading_length by simp
  have ns: "\<not> sublist heading (c @ s)"
  proof
    assume "sublist heading (c @ s)"
    from heading_crossing[OF this nc ls] obtain k where k: "k \<in> set [0 ..< length heading]"
      and sf: "suffix (take k heading) c" and pf: "prefix (drop k heading) s" by blast
    from heading_before_breaks k
    have b1: "prefix (drop k heading) [NL] \<longrightarrow> take k heading = ''## Backlinks'' @ [NL]"
      and b2: "prefix (drop k heading) [NL, NL] \<longrightarrow>
        take k heading = ''## Backlinks'' @ [NL] \<or> take k heading = ''## Backlinks''"
      and b0: "\<not> prefix (drop k heading) []" by blast+
    consider "s = []" | "s = [NL]" | "s = [NL, NL]" unfolding s_def by presburger
    then show False
    proof cases
      case 1
      with pf b0 show False by simp
    next
      case 2
      with pf b1 have "take k heading = ''## Backlinks'' @ [NL]" by simp
      with sf e2 show False by simp
    next
      case 3
      with pf b2 have "take k heading = ''## Backlinks'' @ [NL] \<or> take k heading = ''## Backlinks''"
        by simp
      with sf e1 e2 show False by metis
    qed
  qed
  then have "\<not> sublist heading ((c @ s) @ butlast heading)"
    using sublist_heading_butlast by blast
  with a show ?thesis by blast
qed

text \<open>
  A round in replace mode, done again on the text it wrote, writes the same
  text: for references with no line break in a title, and a text that has a
  section or does not end with the bare heading line.
\<close>

lemma rewritten_twice:
  assumes "refs \<noteq> []" and "\<forall>r \<in> set refs. NL \<notin> set (fst r)"
    and "\<not> bare_heading_at_end c"
  shows "rewritten Replace refs (rewritten Replace refs c) = rewritten Replace refs c"
proof -
  let ?new = "render_section refs"
  have whole: "section_at (?new @ x) = Some (?new, x)" for x
    by (rule section_at_render_section[OF assms(1) assms(2)])
  have hn: "take (length heading) ?new = heading" unfolding render_section_lines by simp
  have fix_point: "existing_section t \<Longrightarrow> re_sub_section (\<lambda>m. ?new) t = t \<Longrightarrow>
      rewritten Replace refs t = t" for t
    by (simp add: rewritten_def)
  show ?thesis
  proof (cases "existing_section c")
    case True
    then have w: "rewritten Replace refs c = re_sub_section (\<lambda>m. ?new) c"
      by (simp add: rewritten_def)
    have e: "existing_section (re_sub_section (\<lambda>m. ?new) c)"
      by (rule existing_section_re_sub[OF hn True])
    have i: "re_sub_section (\<lambda>m. ?new) (re_sub_section (\<lambda>m. ?new) c) =
        re_sub_section (\<lambda>m. ?new) c"
      by (rule re_sub_section_idem[OF whole])
    show ?thesis unfolding w by (rule fix_point[OF e i])
  next
    case False
    then have w: "rewritten Replace refs c = append_section c ?new"
      by (simp add: rewritten_def)
    from append_section_first_block[OF assms(3) False, of ?new] obtain pre
      where a: "append_section c ?new = pre @ ?new"
      and n: "\<not> sublist heading (pre @ butlast heading)" by blast
    have nh: "?new = heading @ (entry_lines refs @ [NL])" by (rule render_section_lines)
    have e: "existing_section (pre @ ?new)"
      by (subst nh) (rule existing_section_append)
    have "re_sub_section (\<lambda>m. ?new) (pre @ heading @ (entry_lines refs @ [NL])) =
        pre @ re_sub_section (\<lambda>m. ?new) (heading @ (entry_lines refs @ [NL]))"
      by (rule re_sub_section_prefix[OF n])
    then have "re_sub_section (\<lambda>m. ?new) (pre @ ?new) = pre @ re_sub_section (\<lambda>m. ?new) (?new @ [])"
      unfolding nh[symmetric] by simp
    also have "\<dots> = pre @ ?new @ re_sub_section (\<lambda>m. ?new) []"
      by (simp only: re_sub_section_new[OF whole])
    finally have i: "re_sub_section (\<lambda>m. ?new) (pre @ ?new) = pre @ ?new" by simp
    show ?thesis unfolding w a by (rule fix_point[OF e i])
  qed
qed

text \<open>
  C3, as the spec states it, fails: \<open>A.md\<close> links to \<open>B\<close> and ends with the
  bare heading line. The first run writes a section to \<open>B.md\<close>; the second
  run finds the link from that section and appends a section to \<open>A.md\<close>, behind
  the heading line; the third run reads the old heading line as the start of a
  block and writes another text. The three runs end without an error.
\<close>

theorem third_run_changes_text:
  "\<not> isl (run_c3 vault_c3) \<and>
   \<not> isl (run_c3 (final (run_c3 vault_c3))) \<and>
   \<not> isl (run_c3 (final (run_c3 (final (run_c3 vault_c3))))) \<and>
   contents (final (run_c3 (final (run_c3 vault_c3)))) ''vault/A.md'' =
     Some (''[[B]]'' @ [NL] @ ''## Backlinks'' @ [NL, NL] @
           ''## Backlinks'' @ [NL, NL] @ ''- [[B]]'' @ [NL, NL]) \<and>
   contents (final (run_c3 (final (run_c3 (final (run_c3 vault_c3)))))) ''vault/A.md'' =
     Some (''[[B]]'' @ [NL] @ ''## Backlinks'' @ [NL, NL] @
           ''- [[B]]'' @ [NL, NL] @ ''- [[B]]'' @ [NL, NL]) \<and>
   contents (final (run_c3 (final (run_c3 (final (run_c3 vault_c3)))))) ''vault/A.md'' \<noteq>
     contents (final (run_c3 (final (run_c3 vault_c3)))) ''vault/A.md''"
  by code_simp

text \<open>
  C3, amended: \<open>v1\<close> is the vault as the first run left it, \<open>v2\<close> the vault as
  the second run, in replace mode, left it. When no title has a backslash or a
  line break, no file of \<open>v1\<close> is without a section and ends with the bare
  heading line, and the scan of the third run finds for every file the
  references that the scan of the second run found, the third run ends without
  an error and leaves every text as the second run left it.
\<close>

theorem third_replace_run_changes_nothing:
  assumes "\<forall>f \<in> set (find_markdown_files walk). plain_title (extract_note_title f)"
    and "\<forall>f \<in> set (find_markdown_files walk).
           case contents v1 f of None \<Rightarrow> True | Some c \<Rightarrow> \<not> bare_heading_at_end c"
    and "generate_backlinks order2 v1 (find_markdown_files walk) = Inr bl2"
    and "generate_backlinks order3 v2 (find_markdown_files walk) = Inr bl3"
    and "references_of bl3 = references_of bl2"
    and "main order2 tc walk Replace text_refs2 v1 = Inr v2"
  shows "\<exists>v3. main order3 tc walk Replace text_refs3 v2 = Inr v3 \<and> contents v3 = contents v2"
proof -
  let ?files = "find_markdown_files walk"
  from assms(1) have bs: "\<forall>f \<in> set ?files. BSL \<notin> set (extract_note_title f)"
    and nl: "\<forall>f \<in> set ?files. NL \<notin> set (extract_note_title f)"
    unfolding plain_title_def by blast+
  note E2 = main_effect[OF bs assms(3) assms(6)]
  from E2 have c2: "contents v2 = rewritten_all Replace bl2 (contents v1)"
    and w2: "writable v2 = writable v1"
    and k2: "\<forall>p \<in> set (map fst bl2). contents v1 p \<noteq> None \<and> (Replace = Replace \<longrightarrow> writable v1 p)"
    by blast+
  note d2 = generate_backlinks_distinct[OF assms(3)]
  note d3 = generate_backlinks_distinct[OF assms(4)]
  note i2 = generate_backlinks_items[OF assms(3), of "\<lambda>t. BSL \<notin> set t", OF bs]
  note i3 = generate_backlinks_items[OF assms(4), of "\<lambda>t. BSL \<notin> set t", OF bs]
  note n2 = generate_backlinks_items[OF assms(3), of "\<lambda>t. NL \<notin> set t", OF nl]
  from i2 have ne2: "\<forall>item \<in> set bl2. snd item \<noteq> []" by blast
  from i3 have ne3: "\<forall>item \<in> set bl3. snd item \<noteq> []" by blast
  have keys: "p \<in> set (map fst bl3) \<longleftrightarrow> p \<in> set (map fst bl2)" for p
    unfolding references_of_key[OF d3 ne3] references_of_key[OF d2 ne2] assms(5) by (rule refl)
  have r3: "\<forall>p \<in> set (map fst bl3). contents v2 p \<noteq> None \<and> writable v2 p"
  proof
    fix p assume "p \<in> set (map fst bl3)"
    then have "p \<in> set (map fst bl2)" unfolding keys .
    with k2 have r: "contents v1 p \<noteq> None" and w: "writable v1 p" by blast+
    from r have "rewritten_all Replace bl2 (contents v1) p \<noteq> None"
      unfolding rewritten_all_def by simp
    with w show "contents v2 p \<noteq> None \<and> writable v2 p" unfolding c2 w2 by simp
  qed
  from update_files_returns[OF d3 i3 r3] obtain v3
    where u3: "update_files_with_backlinks tc bl3 Replace v2 = Inr v3" by blast
  have m3: "main order3 tc walk Replace text_refs3 v2 = Inr v3"
    unfolding main_Inr[OF assms(4)] by (rule u3)
  from update_files_effect[OF d3 i3 u3]
  have "contents v3 = rewritten_all Replace bl3 (contents v2)" by (rule conjunct1)
  then have c3: "contents v3 = rewritten_all Replace bl2 (rewritten_all Replace bl2 (contents v1))"
    unfolding rewritten_all_def assms(5) c2 .
  have "rewritten_all Replace bl2 (rewritten_all Replace bl2 (contents v1)) p =
      rewritten_all Replace bl2 (contents v1) p" for p
  proof (cases "references_of bl2 p = []")
    case True
    then show ?thesis unfolding rewritten_all_def by simp
  next
    case False
    then have k: "p \<in> set (map fst bl2)" unfolding references_of_key[OF d2 ne2] .
    then obtain refs where m: "(p, refs) \<in> set bl2" by auto
    note rf = references_of_member[OF d2 m]
    from n2 m have ne: "refs \<noteq> []" and nn: "\<forall>r \<in> set refs. NL \<notin> set (fst r)" by auto
    from k generate_backlinks_keys[OF assms(3)] have pf: "p \<in> set ?files" by blast
    show ?thesis
    proof (cases "contents v1 p")
      case None
      then show ?thesis unfolding rewritten_all_def by simp
    next
      case (Some c)
      from assms(2) pf have "case contents v1 p of None \<Rightarrow> True | Some c \<Rightarrow> \<not> bare_heading_at_end c"
        by (rule bspec)
      then have "\<not> bare_heading_at_end c" unfolding Some by simp
      from rewritten_twice[OF ne nn this] show ?thesis
        unfolding rewritten_all_def rf Some using ne by simp
    qed
  qed
  then have "rewritten_all Replace bl2 (rewritten_all Replace bl2 (contents v1)) =
      rewritten_all Replace bl2 (contents v1)" by (rule ext)
  then have "contents v3 = contents v2" unfolding c3 c2 .
  with m3 show ?thesis by blast
qed

theorem third_replace_run_changes_nothing_witness:
  "generate_backlinks remdups vault_c3_stable (find_markdown_files walk_c3) =
     Inr [(''vault/B.md'', [(''A'', ''vault/A.md'')]), (''vault/A.md'', [(''B'', ''vault/B.md'')])] \<and>
   generate_backlinks remdups (final (run_c3 vault_c3_stable)) (find_markdown_files walk_c3) =
     Inr [(''vault/B.md'', [(''A'', ''vault/A.md'')]), (''vault/A.md'', [(''B'', ''vault/B.md'')])] \<and>
   run_c3 vault_c3_stable = Inr (final (run_c3 vault_c3_stable)) \<and>
   contents (final (run_c3 vault_c3_stable)) ''vault/B.md'' =
     Some (''back to [[A]]'' @ [NL, NL] @ ''## Backlinks'' @ [NL, NL] @ ''- [[A]]'' @ [NL, NL]) \<and>
   (\<exists>v3. run_c3 (final (run_c3 vault_c3_stable)) = Inr v3 \<and>
      contents v3 = contents (final (run_c3 vault_c3_stable)))"
proof -
  have h1: "\<forall>f \<in> set (find_markdown_files walk_c3). plain_title (extract_note_title f)"
    by code_simp
  have h2: "\<forall>f \<in> set (find_markdown_files walk_c3).
      case contents vault_c3_stable f of None \<Rightarrow> True | Some c \<Rightarrow> \<not> bare_heading_at_end c"
    by code_simp
  have h3: "generate_backlinks remdups vault_c3_stable (find_markdown_files walk_c3) =
     Inr [(''vault/B.md'', [(''A'', ''vault/A.md'')]), (''vault/A.md'', [(''B'', ''vault/B.md'')])]"
    by code_simp
  have h4: "generate_backlinks remdups (final (run_c3 vault_c3_stable)) (find_markdown_files walk_c3) =
     Inr [(''vault/B.md'', [(''A'', ''vault/A.md'')]), (''vault/A.md'', [(''B'', ''vault/B.md'')])]"
    by code_simp
  have "\<not> isl (run_c3 vault_c3_stable)" by code_simp
  then have h6: "run_c3 vault_c3_stable = Inr (final (run_c3 vault_c3_stable))"
    by (rule final_Inr)
  have x: "contents (final (run_c3 vault_c3_stable)) ''vault/B.md'' =
     Some (''back to [[A]]'' @ [NL, NL] @ ''## Backlinks'' @ [NL, NL] @ ''- [[A]]'' @ [NL, NL])"
    by code_simp
  note t = third_replace_run_changes_nothing[OF h1 h2 h3 h4[unfolded run_c3_def] refl
      h6[unfolded run_c3_def],
      of False, folded run_c3_def]
  show ?thesis by (rule conjI[OF h3 conjI[OF h4 conjI[OF h6 conjI[OF x t]]]])
qed

section \<open>The iteration order of the sets\<close>

text \<open>
  Two runs on the same vault that differ in the order in which the sets of
  titles are iterated only, and that both return, leave the same text in every
  file: the order decides in which order the files are written, not what is
  written.
\<close>

lemma main_order:
  assumes "iteration_order set_order" and "iteration_order set_order'"
    and "\<forall>f \<in> set (find_markdown_files walk). BSL \<notin> set (extract_note_title f)"
    and "main set_order tc walk update_mode text_refs v = Inr v1"
    and "main set_order' tc walk update_mode text_refs v = Inr v2"
  shows "contents v2 = contents v1"
proof -
  from main_returns_index[OF assms(4)] obtain bl
    where bl: "generate_backlinks set_order v (find_markdown_files walk) = Inr bl" by blast
  from main_returns_index[OF assms(5)] obtain bl'
    where bl': "generate_backlinks set_order' v (find_markdown_files walk) = Inr bl'" by blast
  have "references_of bl' p = references_of bl p" for p
    by (rule generate_backlinks_order[OF assms(1) assms(2) bl bl'])
  then have r: "references_of bl' = references_of bl" by (rule ext)
  from main_effect[OF assms(3) bl assms(4)]
  have c1: "contents v1 = rewritten_all update_mode bl (contents v)" by (rule conjunct1)
  from main_effect[OF assms(3) bl' assms(5)]
  have c2: "contents v2 = rewritten_all update_mode bl' (contents v)" by (rule conjunct1)
  show ?thesis unfolding c1 c2 rewritten_all_def r by (rule refl)
qed

end
